theory Spec2Isabelle
  imports Main "HOL-Library.Sublist" "HOL-Library.Multiset"
begin

section \<open>utils.ts: errors\<close>

text \<open>
  The messages of the \<open>BotError\<close>s the program throws. The source's literals are
  Chinese, apart from the one about a wrong file; each constructor stands for one literal:
  \<^item> \<open>OperationTimedOut\<close>: utils.ts line 100, thrown by the timeout timer of a batch;
  \<open>AlreadyWorking\<close>: index.ts line 34; \<open>FileSeemsWrong\<close>: index.ts line 72;
  \<open>DownloadFailed\<close>: index.ts line 112; \<open>UploadFailed\<close>: index.ts line 156;
  \<open>AddFailed\<close>: index.ts line 212.
\<close>

datatype message =
    OperationTimedOut
  | AlreadyWorking
  | FileSeemsWrong
  | DownloadFailed
  | UploadFailed
  | AddFailed

text \<open>
  A thrown value: a \<open>BotError\<close> (class \<open>BotError extends Error\<close>) or any other
  value, here the fault of a collaborator (axios, Telegram, Firestore) or a \<open>TypeError\<close>
  of the runtime, named by a string.
\<close>

datatype error = BotError message | Fault string

section \<open>utils.ts: concurrentDo\<close>

text \<open>
  \<open>concurrentDo\<close> builds a promise whose executor runs synchronously and leaves timers
  and promise callbacks behind. The model is the state those callbacks share, and one
  transition per callback the event loop can run: a tick of the interval timer, the
  fulfilment or rejection of the promise of the task in slot \<open>i\<close>, the expiry of the
  timeout timer. Time is abstracted to the order of the events.

  A timer handle is \<open>Unset\<close> before \<open>setInterval\<close>/\<open>setTimeout\<close> gave it a value,
  \<open>Active\<close> while its callback can still run and \<open>Cleared\<close> after
  \<open>clearInterval\<close>/\<open>clearTimeout\<close>.
\<close>

datatype timer = Unset | Active | Cleared

text \<open>
  \<open>queue[i]\<close> is \<open>undefined\<close> (\<open>Free\<close>) or the promise chained on the task started
  in slot \<open>i\<close>. The promise stays in the slot when the task rejects (the \<open>catch\<close>
  callback does not reset the slot): \<open>Broken\<close>. Both \<open>Pending\<close> and \<open>Broken\<close>
  are truthy.
\<close>

datatype 'a slot = Free | Pending 'a | Broken 'a

datatype settled = Unsettled | Resolved | Rejected error

text \<open>
  The variables of the executor's closure. \<open>started\<close> and \<open>finished\<close> are
  instrumentation: the tasks invoked, in the order of their invocation, and the tasks whose
  promise has settled, in the order of settling. The tasks themselves are opaque labels.
\<close>

record 'a batch =
  taskToBeExcuted :: "'a list"
  queue :: "'a slot list"
  pLimit :: nat
  timer :: timer
  timeoutTimer :: timer
  outcome :: settled
  started :: "'a list"
  finished :: "'a list"

definition truthy :: "'a slot \<Rightarrow> bool" where
  "truthy q = (q \<noteq> Free)"

text \<open>\<open>for (let i = 0; i < pLimit; i++) if (queue[i]) return false; return true\<close>\<close>

definition isQueueEmpty :: "'a batch \<Rightarrow> bool" where
  "isQueueEmpty s = list_all (\<lambda>i. \<not> truthy (queue s ! i)) [0..<pLimit s]"

text \<open>\<open>clearInterval(timer); if (timeoutTimer) clearTimeout(timeoutTimer)\<close>\<close>

definition cleanup :: "'a batch \<Rightarrow> 'a batch" where
  "cleanup s = s\<lparr> timer := Cleared,
                  timeoutTimer := (if timeoutTimer s = Unset then Unset else Cleared) \<rparr>"

text \<open>A promise settles once: \<open>resolve\<close> and \<open>reject\<close> after that do nothing.\<close>

definition resolve :: "'a batch \<Rightarrow> 'a batch" where
  "resolve s = (if outcome s = Unsettled then s\<lparr> outcome := Resolved \<rparr> else s)"

definition reject :: "error \<Rightarrow> 'a batch \<Rightarrow> 'a batch" where
  "reject e s = (if outcome s = Unsettled then s\<lparr> outcome := Rejected e \<rparr> else s)"

text \<open>
  One iteration of the loop of \<open>fillQueue\<close>: a free slot takes the last task of
  \<open>taskToBeExcuted\<close> (\<open>pop\<close>) and invokes it.
\<close>

definition fillSlot :: "nat \<Rightarrow> 'a batch \<Rightarrow> 'a batch" where
  "fillSlot i s =
     (if \<not> truthy (queue s ! i) then
        (if length (taskToBeExcuted s) > 0 then
           s\<lparr> queue := (queue s)[i := Pending (last (taskToBeExcuted s))],
              taskToBeExcuted := butlast (taskToBeExcuted s),
              started := started s @ [last (taskToBeExcuted s)] \<rparr>
         else s)
      else s)"

definition fillQueue :: "'a batch \<Rightarrow> 'a batch" where
  "fillQueue s = fold fillSlot [0..<pLimit s] s"

text \<open>
  The executor of the promise. With no task it resolves and returns before any timer is
  created. Otherwise: \<open>fillQueue()\<close> once, then \<open>setInterval\<close>, then \<open>setTimeout\<close> when
  \<open>timeout\<close> is truthy (given and not 0). The sparse array \<open>queue\<close> is read and written
  below \<open>pLimit\<close> only, so it is a list of \<open>pLimit\<close> slots. \<open>limit\<close> is a number, so
  \<open>pLimit = limit ?? tasks.length\<close> is \<open>limit\<close>. \<open>interval\<close> only spaces the ticks in
  time. A task is a function that returns a promise (it does not throw when called).
\<close>

definition concurrentDo :: "'a list \<Rightarrow> nat \<Rightarrow> nat \<Rightarrow> nat option \<Rightarrow> 'a batch" where
  "concurrentDo tasks limit interval timeout =
     (if length tasks = 0 then
        \<lparr> taskToBeExcuted = [], queue = [], pLimit = limit, timer = Unset,
          timeoutTimer = Unset, outcome = Resolved, started = [], finished = [] \<rparr>
      else
        (fillQueue
           \<lparr> taskToBeExcuted = tasks, queue = replicate limit Free, pLimit = limit,
             timer = Unset, timeoutTimer = Unset, outcome = Unsettled,
             started = [], finished = [] \<rparr>)
        \<lparr> timer := Active,
          timeoutTimer := (case timeout of None \<Rightarrow> Unset
                           | Some t \<Rightarrow> if t = 0 then Unset else Active) \<rparr>)"

text \<open>The callbacks the event loop can run.\<close>

datatype event = Tick | TaskResolved nat | TaskRejected nat error | TimeoutFired

text \<open>
  \<open>step ev s\<close> is \<open>None\<close> when the callback cannot run in \<open>s\<close>: a cleared timer does
  not fire, and only a pending promise settles.
  \<^item> \<open>Tick\<close>: \<open>fillQueue()\<close>.
  \<^item> \<open>TaskResolved i\<close>: the \<open>then\<close> callback of the task in slot \<open>i\<close>.
  \<^item> \<open>TaskRejected i e\<close>: its \<open>catch\<close> callback.
  \<^item> \<open>TimeoutFired\<close>: \<open>clearTimeout(timeoutTimer); reject(new BotError(...))\<close>.
\<close>

fun step :: "event \<Rightarrow> 'a batch \<Rightarrow> 'a batch option" where
  "step Tick s = (if timer s = Active then Some (fillQueue s) else None)"
| "step (TaskResolved i) s =
     (if i < length (queue s) then
        (case queue s ! i of
           Pending t \<Rightarrow>
             (let s1 = s\<lparr> queue := (queue s)[i := Free], finished := finished s @ [t] \<rparr>
              in Some (if length (taskToBeExcuted s1) = 0 \<and> isQueueEmpty s1
                       then resolve (cleanup s1) else s1))
         | _ \<Rightarrow> None)
      else None)"
| "step (TaskRejected i e) s =
     (if i < length (queue s) then
        (case queue s ! i of
           Pending t \<Rightarrow>
             Some (reject e (cleanup
               (s\<lparr> queue := (queue s)[i := Broken t], finished := finished s @ [t] \<rparr>)))
         | _ \<Rightarrow> None)
      else None)"
| "step TimeoutFired s =
     (if timeoutTimer s = Active
      then Some (reject (BotError OperationTimedOut) (s\<lparr> timeoutTimer := Cleared \<rparr>))
      else None)"

fun exec :: "event list \<Rightarrow> 'a batch \<Rightarrow> 'a batch option" where
  "exec [] s = Some s"
| "exec (ev # evs) s = (case step ev s of None \<Rightarrow> None | Some s' \<Rightarrow> exec evs s')"

text \<open>The tasks invoked and not yet settled.\<close>

definition outstanding :: "'a batch \<Rightarrow> nat" where
  "outstanding s = length (started s) - length (finished s)"

section \<open>Auxiliary definitions: the states of a batch\<close>

text \<open>The tasks whose promise is pending, slot by slot.\<close>

fun pendings :: "'a slot list \<Rightarrow> 'a list" where
  "pendings [] = []"
| "pendings (Pending t # q) = t # pendings q"
| "pendings (Free # q) = pendings q"
| "pendings (Broken t # q) = pendings q"

text \<open>
  What holds in every state of a batch over \<open>tasks\<close> with limit \<open>L\<close>, whatever the events:
  there are \<open>L\<close> slots; the tasks started, followed by the waiting tasks from the last
  to the first, are the reversed input; and the tasks started are the tasks finished and the
  tasks pending.
\<close>

definition sched_inv :: "'a list \<Rightarrow> nat \<Rightarrow> 'a batch \<Rightarrow> bool" where
  "sched_inv tasks L s =
     (length (queue s) = L \<and> pLimit s = L \<and>
      started s @ rev (taskToBeExcuted s) = rev tasks \<and>
      mset (started s) = mset (finished s) + mset (pendings (queue s)))"

text \<open>
  \<open>succeeds ev\<close>: the event is not the rejection of a task. \<open>quiet ev\<close>: the event is a
  tick or the fulfilment of a task; a quiet run is one in which every task succeeds and the
  timeout does not expire.
\<close>

fun succeeds :: "event \<Rightarrow> bool" where
  "succeeds (TaskRejected i e) = False"
| "succeeds ev = True"

fun quiet :: "event \<Rightarrow> bool" where
  "quiet Tick = True"
| "quiet (TaskResolved i) = True"
| "quiet ev = False"

text \<open>
  What holds in every state of a quiet run: no slot holds a rejected promise, the batch is
  not rejected, the interval timer runs exactly as long as the batch is unsettled, and the
  batch is resolved exactly when no task waits and none is pending.
\<close>

definition good_inv :: "'a batch \<Rightarrow> bool" where
  "good_inv s =
     (list_all (\<lambda>q. q = Free \<or> (\<exists>t. q = Pending t)) (queue s) \<and>
      (outcome s = Unsettled \<or> outcome s = Resolved) \<and>
      (timer s = Active) = (outcome s = Unsettled) \<and>
      (outcome s = Resolved) = (taskToBeExcuted s = [] \<and> pendings (queue s) = []))"

text \<open>A measure that every tick that starts a task and every completion decreases.\<close>

definition work :: "'a batch \<Rightarrow> nat" where
  "work s = 2 * length (taskToBeExcuted s) + length (pendings (queue s))"

text \<open>What \<open>fillQueue\<close>, and each iteration of its loop, keeps from \<open>s\<close> to \<open>s'\<close>.\<close>

definition fill_keeps :: "'a batch \<Rightarrow> 'a batch \<Rightarrow> bool" where
  "fill_keeps s s' =
     (length (queue s') = length (queue s) \<and>
      timer s' = timer s \<and> outcome s' = outcome s \<and> timeoutTimer s' = timeoutTimer s \<and>
      pLimit s' = pLimit s \<and>
      (list_all (\<lambda>q. q = Free \<or> (\<exists>t. q = Pending t)) (queue s) \<longrightarrow>
       list_all (\<lambda>q. q = Free \<or> (\<exists>t. q = Pending t)) (queue s')) \<and>
      length (taskToBeExcuted s') + length (pendings (queue s')) =
        length (taskToBeExcuted s) + length (pendings (queue s)) \<and>
      length (taskToBeExcuted s') \<le> length (taskToBeExcuted s))"

section \<open>index.ts: the retrying operations\<close>

text \<open>
  What a retrying operation does, in order: an invocation of the remote call (with the number
  of failed attempts before it), \<open>await delay(ms)\<close>, \<open>console.log(error)\<close> and,
  in \<open>downloadSticker\<close>, the \<open>console.log\<close> of the url that failed.
\<close>

datatype effect = Attempt nat | Delay nat | ConsoleLogError error | ConsoleLogFailedUrl

text \<open>
  The loop that \<open>downloadSticker\<close> (index.ts 99-109), \<open>uploadSticker\<close> (141-154) and
  \<open>addSticker\<close> (197-210) share:
  \<^verbatim>\<open>
  let error: any
  let times = 0
  while (times < budget) {
      try { const result = await remote(); return result }
      catch (err) { times++; error = err; await delay(pause) }
  }
  \<close>
  with \<open>budget\<close> 3, 3 and 5, and the \<open>delay\<close> of 1000 ms in the last two only
  (\<open>pause = None\<close> is the loop without the call of \<open>delay\<close>). The remote call is an
  oracle: \<open>remote k\<close> is what its invocation after \<open>k\<close> failures returns (\<open>Inr\<close>) or
  throws (\<open>Inl\<close>). The loop returns the result if an attempt succeeded, the variable
  \<open>error\<close> (\<open>None\<close> is \<open>undefined\<close>) and the effects.
\<close>

function retryLoop ::
  "nat \<Rightarrow> nat option \<Rightarrow> (nat \<Rightarrow> error + 'a) \<Rightarrow> nat \<Rightarrow> error option \<Rightarrow> effect list
   \<Rightarrow> 'a option \<times> error option \<times> effect list" where
  "retryLoop budget pause remote ntimes err tr =
     (if ntimes < budget then
        (case remote ntimes of
           Inr result \<Rightarrow> (Some result, err, tr @ [Attempt ntimes])
         | Inl e \<Rightarrow>
             retryLoop budget pause remote (Suc ntimes) (Some e)
               (tr @ [Attempt ntimes] @ (case pause of None \<Rightarrow> [] | Some ms \<Rightarrow> [Delay ms])))
      else (None, err, tr))"
  by pat_completeness auto

termination
  by (relation "measure (\<lambda>(budget, pause, remote, ntimes, err, tr). budget - ntimes)") auto

text \<open>\<open>if (error) console.log(error)\<close>\<close>

definition logError :: "error option \<Rightarrow> effect list" where
  "logError err = (case err of None \<Rightarrow> [] | Some e \<Rightarrow> [ConsoleLogError e])"

text \<open>
  index.ts 98-117: three attempts, no delay; after the loop the error and the url are logged
  and a \<open>BotError\<close> is thrown.
\<close>

definition downloadSticker :: "(nat \<Rightarrow> error + 'a) \<Rightarrow> (error + 'a) \<times> effect list" where
  "downloadSticker remote =
     (case retryLoop 3 None remote 0 None [] of
        (Some result, err, tr) \<Rightarrow> (Inr result, tr)
      | (None, err, tr) \<Rightarrow>
          (Inl (BotError DownloadFailed), tr @ logError err @ [ConsoleLogFailedUrl]))"

text \<open>
  index.ts 140-163: three attempts, one second after each failure. The result is the
  \<open>file_id\<close> that the source stores in \<open>sticker.fileId\<close>.
\<close>

definition uploadSticker :: "(nat \<Rightarrow> error + 'a) \<Rightarrow> (error + 'a) \<times> effect list" where
  "uploadSticker remote =
     (case retryLoop 3 (Some 1000) remote 0 None [] of
        (Some result, err, tr) \<Rightarrow> (Inr result, tr)
      | (None, err, tr) \<Rightarrow> (Inl (BotError UploadFailed), tr @ logError err))"

text \<open>index.ts 196-225: five attempts, one second after each failure.\<close>

definition addSticker :: "(nat \<Rightarrow> error + 'a) \<Rightarrow> (error + 'a) \<times> effect list" where
  "addSticker remote =
     (case retryLoop 5 (Some 1000) remote 0 None [] of
        (Some result, err, tr) \<Rightarrow> (Inr result, tr)
      | (None, err, tr) \<Rightarrow> (Inl (BotError AddFailed), tr @ logError err))"

text \<open>The number of invocations of the remote call, and the effects of a pause.\<close>

definition attempts :: "effect list \<Rightarrow> nat" where
  "attempts tr = length (filter (\<lambda>x. case x of Attempt k \<Rightarrow> True | _ \<Rightarrow> False) tr)"

definition pauseEffects :: "nat option \<Rightarrow> effect list" where
  "pauseEffects pause = (case pause of None \<Rightarrow> [] | Some ms \<Rightarrow> [Delay ms])"

text \<open>The effects of the failed attempts \<open>i, ..., j - 1\<close>.\<close>

definition failedAttempts :: "nat option \<Rightarrow> nat \<Rightarrow> nat \<Rightarrow> effect list" where
  "failedAttempts pause i j = concat (map (\<lambda>k. Attempt k # pauseEffects pause) [i..<j])"

section \<open>utils.ts: the validator of the input document\<close>

text \<open>
  The value \<open>JSON.parse\<close> returns. A number is kept as an integer: the validator reads
  its type only.
\<close>

datatype json =
    JNull
  | JBool bool
  | JNumber int
  | JString string
  | JArray "json list"
  | JObject "(string \<times> json) list"

text \<open>The \<open>TypeError\<close> of the runtime.\<close>

definition TypeError :: error where
  "TypeError = Fault ''TypeError''"

text \<open>
  \<open>key in obj\<close>. On \<open>null\<close>, a boolean, a number or a string the operator throws a
  \<open>TypeError\<close>. An array has its indices, \<open>length\<close> and the methods of its prototype,
  none of which is a key the validator asks for; a parsed object has its own keys (and the
  members of \<open>Object.prototype\<close>, again none of the keys asked for).
\<close>

fun hasProperty :: "string \<Rightarrow> json \<Rightarrow> error + bool" where
  "hasProperty key (JObject kvs) = Inr (key \<in> set (map fst kvs))"
| "hasProperty key (JArray xs) = Inr False"
| "hasProperty key v = Inl TypeError"

text \<open>\<open>obj.key\<close> where \<open>key in obj\<close> did not throw; \<open>None\<close> is \<open>undefined\<close>.\<close>

fun getProperty :: "string \<Rightarrow> json \<Rightarrow> json option" where
  "getProperty key (JObject kvs) = map_of kvs key"
| "getProperty key v = None"

datatype jstype = TUndefined | TObject | TBoolean | TNumber | TString

fun typeof :: "json option \<Rightarrow> jstype" where
  "typeof None = TUndefined"
| "typeof (Some JNull) = TObject"
| "typeof (Some (JBool b)) = TBoolean"
| "typeof (Some (JNumber n)) = TNumber"
| "typeof (Some (JString s)) = TString"
| "typeof (Some (JArray xs)) = TObject"
| "typeof (Some (JObject kvs)) = TObject"

text \<open>\<open>a && b\<close> where \<open>a\<close> may throw: \<open>b\<close> counts only when \<open>a\<close> is true.\<close>

definition andAlso :: "error + bool \<Rightarrow> error + bool \<Rightarrow> error + bool" where
  "andAlso a b = (case a of Inl e \<Rightarrow> Inl e | Inr x \<Rightarrow> if x then b else Inr False)"

text \<open>utils.ts 4-13.\<close>

definition isLineSticker :: "json \<Rightarrow> error + bool" where
  "isLineSticker obj =
     andAlso (hasProperty ''id'' obj)
    (andAlso (Inr (typeof (getProperty ''id'' obj) = TNumber))
    (andAlso (hasProperty ''url'' obj)
    (andAlso (Inr (typeof (getProperty ''url'' obj) = TString))
    (andAlso (hasProperty ''emojis'' obj)
             (Inr (typeof (getProperty ''emojis'' obj) = TString))))))"

text \<open>
  \<open>(obj.stickers as any[]).every((sticker) => isLineSticker(sticker))\<close>: the elements in
  order, stopping at the first that is not a sticker or on which the test throws.
\<close>

fun everyLineSticker :: "json list \<Rightarrow> error + bool" where
  "everyLineSticker [] = Inr True"
| "everyLineSticker (sticker # rest) = andAlso (isLineSticker sticker) (everyLineSticker rest)"

text \<open>\<open>Array.isArray(obj.stickers) && obj.stickers.every(...)\<close>\<close>

fun isArrayOfLineStickers :: "json option \<Rightarrow> error + bool" where
  "isArrayOfLineStickers (Some (JArray xs)) = everyLineSticker xs"
| "isArrayOfLineStickers v = Inr False"

text \<open>utils.ts 15-31.\<close>

definition isLineStickerSet :: "json \<Rightarrow> error + bool" where
  "isLineStickerSet obj =
     andAlso (hasProperty ''id'' obj)
    (andAlso (Inr (typeof (getProperty ''id'' obj) = TNumber))
    (andAlso (hasProperty ''name'' obj)
    (andAlso (Inr (typeof (getProperty ''name'' obj) = TString))
    (andAlso (hasProperty ''author'' obj)
    (andAlso (Inr (typeof (getProperty ''author'' obj) = TString))
    (andAlso (hasProperty ''authorUrl'' obj)
    (andAlso (Inr (typeof (getProperty ''authorUrl'' obj) = TString))
    (andAlso (hasProperty ''mainImageUrl'' obj)
    (andAlso (Inr (typeof (getProperty ''mainImageUrl'' obj) = TString))
    (andAlso (hasProperty ''stickers'' obj)
             (isArrayOfLineStickers (getProperty ''stickers'' obj))))))))))))"

section \<open>typings: the sticker set\<close>

text \<open>
  \<open>LineSticker\<close> and \<open>LineStickerSet\<close>, with the fields the program reads and writes:
  \<open>image\<close> and \<open>fileId\<close> are optional and absent from a validated document's stickers
  unless the document gave them. (\<open>sticker_id\<close>, \<open>set_id\<close> and \<open>sticker_image\<close> are the
  source's \<open>id\<close> and \<open>image\<close>.)
\<close>

record LineSticker =
  sticker_id :: int
  url :: string
  emojis :: string
  sticker_image :: "string option"
  fileId :: "string option"

record LineStickerSet =
  set_id :: int
  name :: string
  author :: string
  authorUrl :: string
  mainImageUrl :: string
  stickers :: "LineSticker list"

text \<open>
  \<open>const firstSticker = stickerSet.stickers[0]\<close> followed by \<open>firstSticker.fileId\<close>
  (index.ts 179-181): on an empty array the element is \<open>undefined\<close> and reading its
  property throws a \<open>TypeError\<close>.
\<close>

definition firstSticker :: "'a list \<Rightarrow> error + 'a" where
  "firstSticker xs = (case xs of [] \<Rightarrow> Inl TypeError | x # rest \<Rightarrow> Inr x)"

section \<open>index.ts: the partition by the cache of image ids\<close>

text \<open>
  \<open>if (existingImageIds[sticker.id])\<close>: the entry is truthy when it exists and is not the
  empty string.
\<close>

definition cachedFileId :: "(int \<rightharpoonup> string) \<Rightarrow> LineSticker \<Rightarrow> bool" where
  "cachedFileId existingImageIds sticker =
     (case existingImageIds (sticker_id sticker) of None \<Rightarrow> False | Some v \<Rightarrow> v \<noteq> [])"

text \<open>
  The body of the \<open>forEach\<close> (index.ts 47-52) on the two arrays
  \<open>(stickersAlreadyUploaded, stickersToBeUploaded)\<close>.
\<close>

definition partitionSticker ::
  "(int \<rightharpoonup> string) \<Rightarrow> LineSticker \<Rightarrow> LineSticker list \<times> LineSticker list
   \<Rightarrow> LineSticker list \<times> LineSticker list" where
  "partitionSticker existingImageIds sticker acc =
     (if cachedFileId existingImageIds sticker
      then (fst acc @ [sticker\<lparr> fileId := existingImageIds (sticker_id sticker) \<rparr>], snd acc)
      else (fst acc, snd acc @ [sticker]))"

definition partitionStickers ::
  "(int \<rightharpoonup> string) \<Rightarrow> LineSticker list \<Rightarrow> LineSticker list \<times> LineSticker list" where
  "partitionStickers existingImageIds xs = fold (partitionSticker existingImageIds) xs ([], [])"

text \<open>
  The write of one sticker in \<open>addImageIds\<close> (index.ts 168-174):
  \<open>if (sticker.fileId) batch.set(doc(sticker.id.toString()), { fileId: sticker.fileId })\<close>,
  on the documents of the collection \<open>images\<close> as \<open>retrieveImageIds\<close> reads them.
\<close>

definition setImageId :: "LineSticker \<Rightarrow> (int \<rightharpoonup> string) \<Rightarrow> (int \<rightharpoonup> string)" where
  "setImageId sticker images =
     (case fileId sticker of
        None \<Rightarrow> images
      | Some f \<Rightarrow> if f \<noteq> [] then images(sticker_id sticker \<mapsto> f) else images)"

text \<open>The collection after the batch of \<open>addImageIds(stickers)\<close> has been committed.\<close>

definition imagesAfterCommit :: "(int \<rightharpoonup> string) \<Rightarrow> LineSticker list \<Rightarrow> (int \<rightharpoonup> string)" where
  "imagesAfterCommit images xs = fold setImageId xs images"

section \<open>index.ts: the handler of a document\<close>

text \<open>
  The document as a \<open>LineStickerSet\<close>: after \<open>isLineStickerSet\<close> the parsed object is
  used as it is. On a validated document the fields read here have the types the validator
  tested. A \<open>fileId\<close> the document gives for a sticker is kept when it is a string.
\<close>

definition numberField :: "string \<Rightarrow> json \<Rightarrow> int" where
  "numberField key obj = (case getProperty key obj of Some (JNumber n) \<Rightarrow> n | _ \<Rightarrow> 0)"

definition stringField :: "string \<Rightarrow> json \<Rightarrow> string" where
  "stringField key obj = (case getProperty key obj of Some (JString s) \<Rightarrow> s | _ \<Rightarrow> [])"

definition optionalStringField :: "string \<Rightarrow> json \<Rightarrow> string option" where
  "optionalStringField key obj =
     (case getProperty key obj of Some (JString s) \<Rightarrow> Some s | _ \<Rightarrow> None)"

definition toLineSticker :: "json \<Rightarrow> LineSticker" where
  "toLineSticker obj =
     \<lparr> sticker_id = numberField ''id'' obj, url = stringField ''url'' obj,
       emojis = stringField ''emojis'' obj, sticker_image = None,
       fileId = optionalStringField ''fileId'' obj \<rparr>"

definition toLineStickerSet :: "json \<Rightarrow> LineStickerSet" where
  "toLineStickerSet obj =
     \<lparr> set_id = numberField ''id'' obj, name = stringField ''name'' obj,
       author = stringField ''author'' obj, authorUrl = stringField ''authorUrl'' obj,
       mainImageUrl = stringField ''mainImageUrl'' obj,
       stickers = (case getProperty ''stickers'' obj of
                     Some (JArray xs) \<Rightarrow> map toLineSticker xs | _ \<Rightarrow> []) \<rparr>"

text \<open>
  The three batches of the handler (index.ts 86-95, 132-137, 189-194), each task labelled by
  the sticker it works on. \<open>slice(1)\<close> is \<open>drop 1\<close>.
\<close>

definition downloadStickersBatch :: "LineSticker list \<Rightarrow> LineSticker batch" where
  "downloadStickersBatch stickersToBeUploaded = concurrentDo stickersToBeUploaded 5 300 (Some 20000)"

definition uploadStickersBatch :: "LineSticker list \<Rightarrow> LineSticker batch" where
  "uploadStickersBatch stickersToBeUploaded = concurrentDo stickersToBeUploaded 5 1800 (Some 60000)"

definition addStickersBatch :: "LineStickerSet \<Rightarrow> LineSticker batch" where
  "addStickersBatch stickerSet = concurrentDo (drop 1 (stickers stickerSet)) 2 1500 (Some 80000)"

text \<open>
  The texts the handler sends with \<open>ctx.reply\<close>, by the line of index.ts that sends them:
  37, 85, 96, 121, 127, 131, 138, 184, 188, 64, and in the \<open>catch\<close> block 236 (with the
  message of the \<open>BotError\<close>) and 239.
\<close>

datatype reply_text =
    ReceivedFile
  | DownloadingStickers
  | StickersDownloaded
  | ScalingImages
  | ImagesProcessed
  | UploadingStickers
  | StickersUploaded
  | StickerSetCreated
  | AddingStickers
  | Succeeded
  | Apology message
  | SomethingStrange

text \<open>
  What a run of the handler does, in order: the writes of \<open>processingChat[userId]\<close>, the
  calls of \<open>ctx.reply\<close>, and the awaited calls of the collaborators and of the batches,
  which carry the ids of the stickers they work on.
\<close>

datatype action =
    SetProcessing int bool
  | Reply reply_text
  | FetchDocument
  | RetrieveImageIds
  | DownloadBatch "int list"
  | NormalizeAll "int list"
  | UploadBatch "int list"
  | CommitImageIds "int list"
  | Sleep nat
  | CreateNewStickerSet int
  | AddBatch "int list"

text \<open>
  The collaborators are oracles: what each awaited call returns, or the value it throws.
  \<open>reply_result k\<close> is the result of the \<open>k\<close>-th call of \<open>ctx.reply\<close>. \<open>document\<close> is
  the result of \<open>getFileLink\<close>, \<open>axios.get\<close> and \<open>JSON.parse\<close>. The three batches are
  awaited promises of \<open>concurrentDo\<close>: the oracle is what the promise settles with. The
  payloads and file ids that the tasks of the batches write into the stickers are not part
  of the model, nor are \<open>console.log\<close> and the random name of the set.
\<close>

record env =
  reply_result :: "nat \<Rightarrow> error option"
  document :: "error + json"
  imageIds :: "error + (int \<rightharpoonup> string)"
  download_batch :: "error option"
  normalize_all :: "error option"
  upload_batch :: "error option"
  commit :: "error option"
  createNewStickerSet :: "error option"
  add_batch :: "error option"

text \<open>
  The state a run reads and writes: the global \<open>processingChat\<close> (a missing entry is
  \<open>undefined\<close>, which is falsy), the number of calls of \<open>ctx.reply\<close> so far, and the
  actions so far.
\<close>

record session =
  processingChat :: "int \<Rightarrow> bool"
  replies :: nat
  trace :: "action list"

definition act :: "action \<Rightarrow> session \<Rightarrow> session" where
  "act a s = s\<lparr> trace := trace s @ [a] \<rparr>"

text \<open>\<open>await ctx.reply(...)\<close>; \<open>log\<close> (index.ts 228-231) is this call and a \<open>console.log\<close>.\<close>

definition reply :: "env \<Rightarrow> reply_text \<Rightarrow> session \<Rightarrow> error option \<times> session" where
  "reply env txt s =
     (reply_result env (replies s), (act (Reply txt) s)\<lparr> replies := Suc (replies s) \<rparr>)"

text \<open>An awaited call with the oracle's result.\<close>

definition await :: "action \<Rightarrow> error option \<Rightarrow> session \<Rightarrow> error option \<times> session" where
  "await a result s = (result, act a s)"

text \<open>Statements in sequence: the first that throws ends the sequence.\<close>

fun runSteps :: "(session \<Rightarrow> error option \<times> session) list \<Rightarrow> session \<Rightarrow> error option \<times> session" where
  "runSteps [] s = (None, s)"
| "runSteps (f # fs) s = (case f s of (Some e, s') \<Rightarrow> (Some e, s') | (None, s') \<Rightarrow> runSteps fs s')"

text \<open>index.ts 33-38.\<close>

definition acquire :: "env \<Rightarrow> int \<Rightarrow> session \<Rightarrow> error option \<times> session" where
  "acquire env userId s =
     (if processingChat s userId then (Some (BotError AlreadyWorking), s)
      else reply env ReceivedFile
             (act (SetProcessing userId True)
                (s\<lparr> processingChat := (processingChat s)(userId := True) \<rparr>)))"

text \<open>index.ts 66-73.\<close>

definition fetchStickerSetObject :: "env \<Rightarrow> session \<Rightarrow> (error + LineStickerSet) \<times> session" where
  "fetchStickerSetObject env s =
     (case document env of
        Inl e \<Rightarrow> (Inl e, act FetchDocument s)
      | Inr result \<Rightarrow>
          (case isLineStickerSet result of
             Inl e \<Rightarrow> (Inl e, act FetchDocument s)
           | Inr ok \<Rightarrow>
               if ok then (Inr (toLineStickerSet result), act FetchDocument s)
               else (Inl (BotError FileSeemsWrong), act FetchDocument s)))"

text \<open>index.ts 75-82.\<close>

definition retrieveImageIds :: "env \<Rightarrow> session \<Rightarrow> (error + (int \<rightharpoonup> string)) \<times> session" where
  "retrieveImageIds env s = (imageIds env, act RetrieveImageIds s)"

text \<open>index.ts 84-96.\<close>

definition downloadStickers :: "env \<Rightarrow> LineSticker list \<Rightarrow> session \<Rightarrow> error option \<times> session" where
  "downloadStickers env stickersToBeUploaded =
     runSteps [reply env DownloadingStickers,
               await (DownloadBatch (map sticker_id stickersToBeUploaded)) (download_batch env),
               reply env StickersDownloaded]"

text \<open>index.ts 120-128.\<close>

definition processStickers :: "env \<Rightarrow> LineSticker list \<Rightarrow> session \<Rightarrow> error option \<times> session" where
  "processStickers env stickersToBeUploaded =
     runSteps [reply env ScalingImages,
               await (NormalizeAll (map sticker_id stickersToBeUploaded)) (normalize_all env),
               reply env ImagesProcessed]"

text \<open>index.ts 130-138.\<close>

definition uploadStickers :: "env \<Rightarrow> LineSticker list \<Rightarrow> session \<Rightarrow> error option \<times> session" where
  "uploadStickers env stickersToBeUploaded =
     runSteps [reply env UploadingStickers,
               await (UploadBatch (map sticker_id stickersToBeUploaded)) (upload_batch env),
               reply env StickersUploaded]"

text \<open>index.ts 166-176.\<close>

definition addImageIds :: "env \<Rightarrow> LineSticker list \<Rightarrow> session \<Rightarrow> error option \<times> session" where
  "addImageIds env xs = await (CommitImageIds (map sticker_id xs)) (commit env)"

text \<open>\<open>await delay(ms)\<close>\<close>

definition sleep :: "nat \<Rightarrow> session \<Rightarrow> error option \<times> session" where
  "sleep ms = await (Sleep ms) None"

text \<open>index.ts 178-185.\<close>

definition createStickerSet :: "env \<Rightarrow> LineStickerSet \<Rightarrow> session \<Rightarrow> error option \<times> session" where
  "createStickerSet env stickerSet s =
     (case firstSticker (stickers stickerSet) of
        Inl e \<Rightarrow> (Some e, s)
      | Inr first \<Rightarrow>
          runSteps [await (CreateNewStickerSet (sticker_id first)) (createNewStickerSet env),
                    reply env StickerSetCreated] s)"

text \<open>index.ts 187-194.\<close>

definition addStickers :: "env \<Rightarrow> LineStickerSet \<Rightarrow> session \<Rightarrow> error option \<times> session" where
  "addStickers env stickerSet =
     runSteps [reply env AddingStickers,
               await (AddBatch (map sticker_id (drop 1 (stickers stickerSet)))) (add_batch env)]"

text \<open>index.ts 63-64.\<close>

definition finish :: "env \<Rightarrow> int \<Rightarrow> session \<Rightarrow> error option \<times> session" where
  "finish env userId s =
     reply env Succeeded
       (act (SetProcessing userId False)
          (s\<lparr> processingChat := (processingChat s)(userId := False) \<rparr>))"

text \<open>
  The \<open>try\<close> block, index.ts 33-64. The partition changes the stickers of the set in place:
  the stickers of the first partition are the set's, with their \<open>fileId\<close>.
\<close>

definition tryBlock :: "env \<Rightarrow> int \<Rightarrow> session \<Rightarrow> error option \<times> session" where
  "tryBlock env userId s =
     (case acquire env userId s of
        (Some e, s1) \<Rightarrow> (Some e, s1)
      | (None, s1) \<Rightarrow>
          (case fetchStickerSetObject env s1 of
             (Inl e, s2) \<Rightarrow> (Some e, s2)
           | (Inr fetched, s2) \<Rightarrow>
               (case retrieveImageIds env s2 of
                  (Inl e, s3) \<Rightarrow> (Some e, s3)
                | (Inr existingImageIds, s3) \<Rightarrow>
                    (let stickersToBeUploaded =
                           snd (partitionStickers existingImageIds (stickers fetched));
                         stickerSet = fetched\<lparr> stickers :=
                           map (\<lambda>sticker. if cachedFileId existingImageIds sticker
                                  then sticker\<lparr> fileId := existingImageIds (sticker_id sticker) \<rparr>
                                  else sticker) (stickers fetched) \<rparr>
                     in runSteps [downloadStickers env stickersToBeUploaded,
                                  processStickers env stickersToBeUploaded,
                                  uploadStickers env stickersToBeUploaded,
                                  addImageIds env stickersToBeUploaded,
                                  sleep 1000,
                                  createStickerSet env stickerSet,
                                  sleep 8000,
                                  addStickers env stickerSet,
                                  finish env userId] s3))))"

text \<open>
  The result of a run: the error the \<open>catch\<close> block caught (\<open>None\<close> when the \<open>try\<close>
  block ran to its end), the error that left the handler (thrown by the \<open>ctx.reply\<close> of the
  \<open>catch\<close> block), and the state.
\<close>

record run =
  caught :: "error option"
  escaped :: "error option"
  final :: session

text \<open>The \<open>catch\<close> block, index.ts 232-241.\<close>

definition catchBlock :: "env \<Rightarrow> int \<Rightarrow> error \<Rightarrow> session \<Rightarrow> error option \<times> session" where
  "catchBlock env userId err s =
     reply env (case err of BotError m \<Rightarrow> Apology m | Fault f \<Rightarrow> SomethingStrange)
       (act (SetProcessing userId False)
          (s\<lparr> processingChat := (processingChat s)(userId := False) \<rparr>))"

text \<open>\<open>bot.on("document", async (ctx) => ...)\<close>, index.ts 29-242.\<close>

definition onDocument :: "env \<Rightarrow> int \<Rightarrow> session \<Rightarrow> run" where
  "onDocument env userId s =
     (case tryBlock env userId s of
        (None, s') \<Rightarrow> \<lparr> caught = None, escaped = None, final = s' \<rparr>
      | (Some err, s') \<Rightarrow>
          (case catchBlock env userId err s' of
             (thrown, s'') \<Rightarrow> \<lparr> caught = Some err, escaped = thrown, final = s'' \<rparr>))"

text \<open>
  An environment in which every call succeeds, for a document with two stickers and an
  empty cache, and a state in which no chat is being processed.
\<close>

definition twoStickers :: json where
  "twoStickers =
     JObject [(''id'', JNumber 1), (''name'', JString ''cats''), (''author'', JString ''me''),
       (''authorUrl'', JString ''u''), (''mainImageUrl'', JString ''m''),
       (''stickers'', JArray
          [JObject [(''id'', JNumber 7), (''url'', JString ''x''), (''emojis'', JString ''e'')],
           JObject [(''id'', JNumber 8), (''url'', JString ''y''), (''emojis'', JString ''e'')]])]"

text \<open>A document that has the fields of a set and no sticker.\<close>

definition noStickers :: json where
  "noStickers =
     JObject [(''id'', JNumber 1), (''name'', JString ''cats''), (''author'', JString ''me''),
       (''authorUrl'', JString ''u''), (''mainImageUrl'', JString ''m''),
       (''stickers'', JArray [])]"

definition allSucceed :: env where
  "allSucceed =
     \<lparr> reply_result = (\<lambda>k. None), document = Inr twoStickers, imageIds = Inr Map.empty,
       download_batch = None, normalize_all = None, upload_batch = None, commit = None,
       createNewStickerSet = None, add_batch = None \<rparr>"

definition idle :: session where
  "idle = \<lparr> processingChat = (\<lambda>u. False), replies = 0, trace = [] \<rparr>"

text \<open>How often the run has executed \<open>processingChat[userId] = false\<close>.\<close>

definition releases :: "int \<Rightarrow> session \<Rightarrow> nat" where
  "releases userId s = length (filter (\<lambda>a. a = SetProcessing userId False) (trace s))"

text \<open>
  What a step of the handler, from state \<open>s\<close> to state \<open>s'\<close> with result \<open>r\<close>, does
  with its notifications: if a call of \<open>ctx.reply\<close> made in the step faults, it is the
  last call and the last action of the step, and its fault is the result of the step.
\<close>

definition fatalIn :: "env \<Rightarrow> session \<Rightarrow> error option \<Rightarrow> session \<Rightarrow> bool" where
  "fatalIn env s r s' =
     (replies s \<le> replies s' \<and>
      (\<forall>k. replies s \<le> k \<and> k < replies s' \<and> reply_result env k \<noteq> None \<longrightarrow>
           Suc k = replies s' \<and> r = reply_result env k \<and>
           trace s' \<noteq> [] \<and> (\<exists>txt. last (trace s') = Reply txt)))"

text \<open>Stickers and a set for examples.\<close>

definition stickerOf :: "int \<Rightarrow> LineSticker" where
  "stickerOf n = \<lparr> sticker_id = n, url = [], emojis = [], sticker_image = None, fileId = None \<rparr>"

definition setOf :: "int list \<Rightarrow> LineStickerSet" where
  "setOf ids = \<lparr> set_id = 0, name = [], author = [], authorUrl = [], mainImageUrl = [],
                 stickers = map stickerOf ids \<rparr>"

section \<open>Proofs: the scheduler\<close>

lemma length_pendings_le: "length (pendings q) \<le> length q"
  by (induction q rule: pendings.induct) auto

lemma pendings_fill:
  "i < length q \<Longrightarrow> q ! i = Free \<Longrightarrow>
   mset (pendings (q[i := Pending t])) = add_mset t (mset (pendings q))"
proof (induction q arbitrary: i rule: pendings.induct)
  case 1
  then show ?case by simp
next
  case (2 u q)
  then show ?case by (cases i) auto
next
  case (3 q)
  then show ?case by (cases i) auto
next
  case (4 u q)
  then show ?case by (cases i) auto
qed

lemma pendings_settle:
  "i < length q \<Longrightarrow> q ! i = Pending t \<Longrightarrow> x = Free \<or> x = Broken u \<Longrightarrow>
   mset (pendings q) = add_mset t (mset (pendings (q[i := x])))"
proof (induction q arbitrary: i rule: pendings.induct)
  case 1
  then show ?case by simp
next
  case (2 u q)
  then show ?case by (cases i) auto
next
  case (3 q)
  then show ?case by (cases i) auto
next
  case (4 u q)
  then show ?case by (cases i) auto
qed

lemma fillSlot_inv:
  assumes "sched_inv tasks L s" and "i < L"
  shows "sched_inv tasks L (fillSlot i s)"
proof (cases "queue s ! i = Free \<and> taskToBeExcuted s \<noteq> []")
  case False
  then show ?thesis using assms by (auto simp: fillSlot_def truthy_def)
next
  case True
  then have ne: "taskToBeExcuted s \<noteq> []" and fr: "queue s ! i = Free" by auto
  have il: "i < length (queue s)" using assms by (simp add: sched_inv_def)
  have sp: "rev (taskToBeExcuted s) = last (taskToBeExcuted s) # rev (butlast (taskToBeExcuted s))"
    using ne by (metis append_butlast_last_id rev.simps(2) rev_append rev_rev_ident append_Cons append_Nil rev_singleton_conv)
  show ?thesis
    using assms ne fr sp pendings_fill[OF il fr]
    by (simp add: fillSlot_def truthy_def sched_inv_def)
qed

lemma fold_fillSlot_inv:
  "sched_inv tasks L s \<Longrightarrow> \<forall>i \<in> set is. i < L \<Longrightarrow> sched_inv tasks L (fold fillSlot is s)"
  by (induction "is" arbitrary: s) (auto simp: fillSlot_inv)

lemma fillQueue_inv: "sched_inv tasks L s \<Longrightarrow> sched_inv tasks L (fillQueue s)"
  using fold_fillSlot_inv[of tasks L s "[0..<L]"]
  by (simp add: fillQueue_def sched_inv_def)

lemma sched_inv_fields:
  "sched_inv tasks L (s\<lparr>timer := a\<rparr>) = sched_inv tasks L s"
  "sched_inv tasks L (s\<lparr>timeoutTimer := b\<rparr>) = sched_inv tasks L s"
  "sched_inv tasks L (s\<lparr>outcome := c\<rparr>) = sched_inv tasks L s"
  by (simp_all add: sched_inv_def)

lemma cleanup_inv: "sched_inv tasks L (cleanup s) = sched_inv tasks L s"
  by (simp add: cleanup_def sched_inv_def)

lemma resolve_inv: "sched_inv tasks L (resolve s) = sched_inv tasks L s"
  by (simp add: resolve_def sched_inv_def)

lemma reject_inv: "sched_inv tasks L (reject e s) = sched_inv tasks L s"
  by (simp add: reject_def sched_inv_def)

lemma concurrentDo_inv:
  assumes "tasks \<noteq> []"
  shows "sched_inv tasks L (concurrentDo tasks L I T)"
proof -
  have "sched_inv tasks L
          \<lparr> taskToBeExcuted = tasks, queue = replicate L Free, pLimit = L,
            timer = Unset, timeoutTimer = Unset, outcome = Unsettled,
            started = [], finished = [] \<rparr>"
    by (induction L) (auto simp: sched_inv_def)
  then show ?thesis
    using assms by (simp add: concurrentDo_def sched_inv_fields fillQueue_inv)
qed

lemma step_inv:
  assumes "sched_inv tasks L s" and "step ev s = Some s'"
  shows "sched_inv tasks L s'"
proof (cases ev)
  case Tick
  then show ?thesis using assms by (auto simp: fillQueue_inv split: if_splits)
next
  case (TaskResolved i)
  then obtain t where il: "i < length (queue s)" and p: "queue s ! i = Pending t"
    using assms(2) by (auto split: if_splits slot.splits)
  let ?s1 = "s\<lparr> queue := (queue s)[i := Free], finished := finished s @ [t] \<rparr>"
  have "sched_inv tasks L ?s1"
    using assms(1) pendings_settle[OF il p, of Free] by (simp add: sched_inv_def)
  moreover have "s' = (if length (taskToBeExcuted ?s1) = 0 \<and> isQueueEmpty ?s1
                       then resolve (cleanup ?s1) else ?s1)"
    using assms(2) TaskResolved il p by (simp add: Let_def)
  ultimately show ?thesis by (simp add: resolve_inv cleanup_inv)
next
  case (TaskRejected i e)
  then obtain t where il: "i < length (queue s)" and p: "queue s ! i = Pending t"
    using assms(2) by (auto split: if_splits slot.splits)
  let ?s1 = "s\<lparr> queue := (queue s)[i := Broken t], finished := finished s @ [t] \<rparr>"
  have "sched_inv tasks L ?s1"
    using assms(1) pendings_settle[OF il p, of "Broken t" t] by (simp add: sched_inv_def)
  moreover have "s' = reject e (cleanup ?s1)"
    using assms(2) TaskRejected il p by simp
  ultimately show ?thesis by (simp add: reject_inv cleanup_inv)
next
  case TimeoutFired
  then show ?thesis using assms by (auto simp: reject_inv sched_inv_fields split: if_splits)
qed

lemma exec_inv:
  "sched_inv tasks L s \<Longrightarrow> exec evs s = Some s' \<Longrightarrow> sched_inv tasks L s'"
proof (induction evs arbitrary: s)
  case Nil
  then show ?case by simp
next
  case (Cons ev evs)
  then show ?case by (auto split: option.splits dest: step_inv)
qed

lemma sched_inv_outstanding:
  assumes "sched_inv tasks L s"
  shows "outstanding s = length (pendings (queue s))" and "outstanding s \<le> L"
proof -
  have "size (mset (started s)) = size (mset (finished s) + mset (pendings (queue s)))"
    using assms by (simp add: sched_inv_def)
  then have "length (started s) = length (finished s) + length (pendings (queue s))"
    by simp
  then show "outstanding s = length (pendings (queue s))"
    by (simp add: outstanding_def)
  then show "outstanding s \<le> L"
    using length_pendings_le[of "queue s"] assms by (simp add: sched_inv_def)
qed

lemma no_broken_pendings:
  "list_all (\<lambda>q. q = Free \<or> (\<exists>t. q = Pending t)) q \<Longrightarrow>
   (pendings q = []) = (\<forall>x \<in> set q. x = Free)"
  by (induction q rule: pendings.induct) auto

lemma isQueueEmpty_iff:
  "length (queue s) = pLimit s \<Longrightarrow> isQueueEmpty s = (\<forall>x \<in> set (queue s). x = Free)"
  by (auto simp: isQueueEmpty_def truthy_def list_all_iff all_set_conv_all_nth)

lemma pendings_all_free: "\<forall>x \<in> set q. x = Free \<Longrightarrow> pendings q = []"
  by (induction q rule: pendings.induct) auto

lemma pendings_nth:
  "pendings q \<noteq> [] \<Longrightarrow> \<exists>i t. i < length q \<and> q ! i = Pending t"
proof (induction q rule: pendings.induct)
  case 1
  then show ?case by simp
next
  case (2 t q)
  have "0 < length (Pending t # q) \<and> (Pending t # q) ! 0 = Pending t" by simp
  then show ?case by blast
next
  case (3 q)
  then obtain i t where "i < length q" "q ! i = Pending t" by auto
  then have "Suc i < length (Free # q) \<and> (Free # q) ! Suc i = Pending t" by simp
  then show ?case by blast
next
  case (4 u q)
  then obtain i t where "i < length q" "q ! i = Pending t" by auto
  then have "Suc i < length (Broken u # q) \<and> (Broken u # q) ! Suc i = Pending t" by simp
  then show ?case by blast
qed

lemma fill_keeps_refl: "fill_keeps s s"
  by (simp add: fill_keeps_def)

lemma fill_keeps_trans: "fill_keeps s s' \<Longrightarrow> fill_keeps s' s'' \<Longrightarrow> fill_keeps s s''"
  by (auto simp: fill_keeps_def)

lemma list_all_update:
  "list_all P q \<Longrightarrow> P x \<Longrightarrow> list_all P (q[i := x])"
  by (induction q arbitrary: i) (auto split: nat.splits)

lemma fillSlot_keeps:
  assumes "i < length (queue s)"
  shows "fill_keeps s (fillSlot i s)"
proof (cases "queue s ! i = Free \<and> taskToBeExcuted s \<noteq> []")
  case False
  then show ?thesis by (auto simp: fillSlot_def truthy_def fill_keeps_def)
next
  case True
  then have fr: "queue s ! i = Free" and ne: "taskToBeExcuted s \<noteq> []" by auto
  have "size (mset (pendings ((queue s)[i := Pending (last (taskToBeExcuted s))]))) =
        size (add_mset (last (taskToBeExcuted s)) (mset (pendings (queue s))))"
    using pendings_fill[OF assms fr] by simp
  then have "length (pendings ((queue s)[i := Pending (last (taskToBeExcuted s))])) =
        Suc (length (pendings (queue s)))" by simp
  then show ?thesis
    using fr ne by (auto simp: fillSlot_def truthy_def fill_keeps_def list_all_update)
qed

lemma fold_fillSlot_keeps:
  "\<forall>i \<in> set is. i < length (queue s) \<Longrightarrow> fill_keeps s (fold fillSlot is s)"
proof (induction "is" arbitrary: s)
  case Nil
  then show ?case by (simp add: fill_keeps_refl)
next
  case (Cons i "is")
  have a: "fill_keeps s (fillSlot i s)" using Cons.prems by (simp add: fillSlot_keeps)
  then have "length (queue (fillSlot i s)) = length (queue s)" by (simp add: fill_keeps_def)
  then have "fill_keeps (fillSlot i s) (fold fillSlot is (fillSlot i s))"
    using Cons by simp
  then show ?case using a fill_keeps_trans by fastforce
qed

lemma fillQueue_keeps:
  "length (queue s) = pLimit s \<Longrightarrow> fill_keeps s (fillQueue s)"
  using fold_fillSlot_keeps[of "[0..<pLimit s]" s] by (simp add: fillQueue_def)

text \<open>With a free first slot and a task left, fillQueue starts a task.\<close>

lemma fillQueue_starts:
  assumes "length (queue s) = pLimit s" and "0 < pLimit s"
    and "queue s ! 0 = Free" and "taskToBeExcuted s \<noteq> []"
  shows "length (taskToBeExcuted (fillQueue s)) < length (taskToBeExcuted s)"
proof -
  let ?s1 = "fillSlot 0 s"
  have up: "[0..<pLimit s] = 0 # [1..<pLimit s]" using assms(2) by (simp add: upt_rec)
  have f: "fillQueue s = fold fillSlot [1..<pLimit s] ?s1"
    by (simp add: fillQueue_def up)
  have l1: "length (taskToBeExcuted ?s1) < length (taskToBeExcuted s)"
    using assms by (simp add: fillSlot_def truthy_def)
  have "length (queue ?s1) = pLimit s"
    using assms fillSlot_keeps[of 0 s] by (simp add: fill_keeps_def)
  then have "fill_keeps ?s1 (fold fillSlot [1..<pLimit s] ?s1)"
    using fold_fillSlot_keeps[of "[1..<pLimit s]" ?s1] by simp
  then show ?thesis using l1 f by (simp add: fill_keeps_def)
qed

lemma quiet_iff: "quiet ev = (succeeds ev \<and> ev \<noteq> TimeoutFired)"
  by (cases ev) auto

lemma concurrentDo_good:
  assumes "tasks \<noteq> []" and "1 \<le> L"
  shows "good_inv (concurrentDo tasks L I T)"
proof -
  let ?s0 = "\<lparr> taskToBeExcuted = tasks, queue = replicate L Free, pLimit = L,
               timer = Unset, timeoutTimer = Unset, outcome = Unsettled,
               started = [], finished = [] \<rparr>"
  have k: "fill_keeps ?s0 (fillQueue ?s0)" by (simp add: fillQueue_keeps)
  have p0: "pendings (replicate L Free) = []" by (simp add: pendings_all_free)
  have a0: "list_all (\<lambda>q. q = Free \<or> (\<exists>t. q = Pending t)) (replicate L (Free :: 'a slot))"
    by (simp add: list_all_iff)
  have "length (taskToBeExcuted (fillQueue ?s0)) + length (pendings (queue (fillQueue ?s0)))
        = length tasks"
    using k p0 by (simp add: fill_keeps_def)
  then have ne: "\<not> (taskToBeExcuted (fillQueue ?s0) = [] \<and> pendings (queue (fillQueue ?s0)) = [])"
    using assms(1) by auto
  have "outcome (fillQueue ?s0) = Unsettled"
    and "list_all (\<lambda>q. q = Free \<or> (\<exists>t. q = Pending t)) (queue (fillQueue ?s0))"
    using k a0 by (simp_all add: fill_keeps_def)
  then show ?thesis
    using assms(1) ne by (simp add: concurrentDo_def good_inv_def)
qed

lemma step_good:
  assumes "sched_inv tasks L s" and "good_inv s" and "quiet ev" and "step ev s = Some s'"
  shows "good_inv s'"
proof (cases ev)
  case Tick
  then have act: "timer s = Active" and s': "s' = fillQueue s"
    using assms(4) by (auto split: if_splits)
  have k: "fill_keeps s s'"
    using assms(1) s' by (simp add: fillQueue_keeps sched_inv_def)
  have un: "outcome s = Unsettled" using act assms(2) by (simp add: good_inv_def)
  then have "\<not> (taskToBeExcuted s = [] \<and> pendings (queue s) = [])"
    using assms(2) by (auto simp: good_inv_def)
  then have "\<not> (taskToBeExcuted s' = [] \<and> pendings (queue s') = [])"
    using k by (auto simp: fill_keeps_def)
  then show ?thesis
    using k un act assms(2) by (auto simp: good_inv_def fill_keeps_def)
next
  case (TaskResolved i)
  then obtain t where il: "i < length (queue s)" and p: "queue s ! i = Pending t"
    using assms(4) by (auto split: if_splits slot.splits)
  let ?s1 = "s\<lparr> queue := (queue s)[i := Free], finished := finished s @ [t] \<rparr>"
  have s': "s' = (if length (taskToBeExcuted ?s1) = 0 \<and> isQueueEmpty ?s1
                   then resolve (cleanup ?s1) else ?s1)"
    using assms(4) TaskResolved il p by (simp add: Let_def)
  have "Pending t \<in> set (queue s)" using il p by (metis nth_mem)
  then have "pendings (queue s) \<noteq> []"
    using assms(2) no_broken_pendings[of "queue s"] by (auto simp: good_inv_def)
  then have un: "outcome s = Unsettled" and act: "timer s = Active"
    using assms(2) by (auto simp: good_inv_def)
  have nb: "list_all (\<lambda>q. q = Free \<or> (\<exists>t. q = Pending t)) (queue ?s1)"
    using assms(2) by (simp add: good_inv_def list_all_update)
  have len: "length (queue ?s1) = pLimit ?s1"
    using assms(1) by (simp add: sched_inv_def)
  have e: "isQueueEmpty ?s1 = (pendings (queue ?s1) = [])"
    using isQueueEmpty_iff[OF len] no_broken_pendings[OF nb] by simp
  show ?thesis
  proof (cases "length (taskToBeExcuted ?s1) = 0 \<and> isQueueEmpty ?s1")
    case True
    have "s' = resolve (cleanup ?s1)" unfolding s' using True by (rule if_P)
    then show ?thesis
      using True e nb un by (simp add: good_inv_def resolve_def cleanup_def)
  next
    case False
    have "s' = ?s1" unfolding s' using False by (rule if_not_P)
    then show ?thesis
      using False e nb un act by (auto simp: good_inv_def)
  qed
next
  case (TaskRejected i e)
  then show ?thesis using assms(3) by simp
next
  case TimeoutFired
  then show ?thesis using assms(3) by simp
qed

lemma exec_good:
  "sched_inv tasks L s \<Longrightarrow> good_inv s \<Longrightarrow> list_all quiet evs \<Longrightarrow> exec evs s = Some s' \<Longrightarrow>
   good_inv s'"
proof (induction evs arbitrary: s)
  case Nil
  then show ?case by simp
next
  case (Cons ev evs)
  then obtain s1 where s1: "step ev s = Some s1" and r: "exec evs s1 = Some s'"
    by (auto split: option.splits)
  have "sched_inv tasks L s1" using Cons.prems(1) s1 by (rule step_inv)
  moreover have "good_inv s1" using Cons.prems s1 step_good[of tasks L s ev s1] by simp
  ultimately show ?case using Cons.IH[of s1] Cons.prems(3) r by simp
qed

lemma work_fields:
  "work (cleanup s) = work s" "work (resolve s) = work s"
  by (simp_all add: work_def cleanup_def resolve_def)

lemma progress:
  assumes "sched_inv tasks L s" and "good_inv s" and "1 \<le> L" and "outcome s = Unsettled"
  shows "\<exists>ev s'. quiet ev \<and> step ev s = Some s' \<and> work s' < work s"
proof (cases "pendings (queue s) = []")
  case False
  then obtain i t where il: "i < length (queue s)" and p: "queue s ! i = Pending t"
    using pendings_nth by blast
  let ?s1 = "s\<lparr> queue := (queue s)[i := Free], finished := finished s @ [t] \<rparr>"
  let ?s' = "if length (taskToBeExcuted ?s1) = 0 \<and> isQueueEmpty ?s1
             then resolve (cleanup ?s1) else ?s1"
  have st: "step (TaskResolved i) s = Some ?s'"
    using il p by (simp add: Let_def)
  have "size (mset (pendings (queue s))) = size (add_mset t (mset (pendings ((queue s)[i := Free]))))"
    using pendings_settle[OF il p, of Free] by simp
  then have "length (pendings (queue s)) = Suc (length (pendings ((queue s)[i := Free])))"
    by simp
  then have "work ?s1 < work s" by (simp add: work_def)
  then have "work ?s' < work s" by (simp add: work_fields)
  moreover have "quiet (TaskResolved i)" by simp
  ultimately show ?thesis using st by blast
next
  case True
  then have fr: "\<forall>x \<in> set (queue s). x = Free"
    using assms(2) no_broken_pendings[of "queue s"] by (simp add: good_inv_def)
  have len: "length (queue s) = pLimit s" and pl: "0 < pLimit s"
    using assms(1,3) by (simp_all add: sched_inv_def)
  have q0: "queue s ! 0 = Free" using fr len pl by (metis nth_mem)
  have ne: "taskToBeExcuted s \<noteq> []"
    using assms(2,4) True by (auto simp: good_inv_def)
  have act: "timer s = Active" using assms(2,4) by (simp add: good_inv_def)
  have lt: "length (taskToBeExcuted (fillQueue s)) < length (taskToBeExcuted s)"
    using fillQueue_starts[OF len pl q0 ne] .
  have "fill_keeps s (fillQueue s)" using len by (rule fillQueue_keeps)
  then have "work (fillQueue s) < work s"
    using lt by (simp add: work_def fill_keeps_def)
  moreover have "step Tick s = Some (fillQueue s)" using act by simp
  moreover have "quiet Tick" by simp
  ultimately show ?thesis by blast
qed

lemma can_resolve:
  assumes "1 \<le> L"
  shows "sched_inv tasks L s \<Longrightarrow> good_inv s \<Longrightarrow>
         \<exists>evs s'. list_all quiet evs \<and> exec evs s = Some s' \<and> outcome s' = Resolved"
proof (induction "work s" arbitrary: s rule: less_induct)
  case less
  show ?case
  proof (cases "outcome s = Resolved")
    case True
    then have "list_all quiet [] \<and> exec [] s = Some s \<and> outcome s = Resolved" by simp
    then show ?thesis by blast
  next
    case False
    then have un: "outcome s = Unsettled" using less.prems(2) by (auto simp: good_inv_def)
    obtain ev s1 where q: "quiet ev" and st: "step ev s = Some s1" and w: "work s1 < work s"
      using progress[OF less.prems(1,2) assms un] by blast
    have i1: "sched_inv tasks L s1" using less.prems(1) st by (rule step_inv)
    have g1: "good_inv s1" using less.prems q st by (rule step_good)
    obtain evs s' where "list_all quiet evs" "exec evs s1 = Some s'" "outcome s' = Resolved"
      using less.hyps[OF w i1 g1] by blast
    then have "list_all quiet (ev # evs) \<and> exec (ev # evs) s = Some s' \<and> outcome s' = Resolved"
      using q st by simp
    then show ?thesis by blast
  qed
qed

lemma resolved_iff_all_finished:
  assumes "sched_inv tasks L s" and "good_inv s"
  shows "(outcome s = Resolved) = (length (finished s) = length tasks)"
proof -
  have "length (started s @ rev (taskToBeExcuted s)) = length (rev tasks)"
    using assms(1) by (simp add: sched_inv_def)
  then have a: "length (started s) + length (taskToBeExcuted s) = length tasks" by simp
  have "size (mset (started s)) = size (mset (finished s) + mset (pendings (queue s)))"
    using assms(1) by (simp add: sched_inv_def)
  then have b: "length (started s) = length (finished s) + length (pendings (queue s))" by simp
  have "(length (finished s) = length tasks) =
        (taskToBeExcuted s = [] \<and> pendings (queue s) = [])"
    using a b by auto
  then show ?thesis using assms(2) by (simp add: good_inv_def)
qed

lemma resolved_all_once:
  assumes "sched_inv tasks L s" and "good_inv s" and "outcome s = Resolved"
  shows "started s = rev tasks \<and> mset (finished s) = mset tasks"
proof -
  have e: "taskToBeExcuted s = []" "pendings (queue s) = []"
    using assms(2,3) by (simp_all add: good_inv_def)
  have a: "started s @ rev (taskToBeExcuted s) = rev tasks"
    and b: "mset (started s) = mset (finished s) + mset (pendings (queue s))"
    using assms(1) by (simp_all add: sched_inv_def)
  have st: "started s = rev tasks" using a e by simp
  have "mset (finished s) = mset (started s)" using b e by simp
  also have "\<dots> = mset (rev tasks)" using st by simp
  also have "\<dots> = mset tasks" by simp
  finally show ?thesis using st by simp
qed

lemma concurrentDo_empty:
  "concurrentDo [] L I T =
     \<lparr> taskToBeExcuted = [], queue = [], pLimit = L, timer = Unset,
       timeoutTimer = Unset, outcome = Resolved, started = [], finished = [] \<rparr>"
  by (simp add: concurrentDo_def)

lemma step_empty: "step ev (concurrentDo [] L I T) = None"
  by (cases ev) (simp_all add: concurrentDo_empty)

lemma exec_empty: "exec evs (concurrentDo [] L I T) = Some s \<Longrightarrow> evs = [] \<and> s = concurrentDo [] L I T"
  by (cases evs) (auto simp: step_empty)

text \<open>The first call of fillQueue, on free slots only.\<close>

lemma first_fill:
  assumes "k \<le> L"
  shows "fold fillSlot [0..<k]
           \<lparr> taskToBeExcuted = tasks, queue = replicate L Free, pLimit = L,
             timer = Unset, timeoutTimer = Unset, outcome = Unsettled,
             started = [], finished = [] \<rparr> =
         \<lparr> taskToBeExcuted = take (length tasks - k) tasks,
           queue = map Pending (take k (rev tasks)) @ replicate (L - min k (length tasks)) Free,
           pLimit = L, timer = Unset, timeoutTimer = Unset, outcome = Unsettled,
           started = take k (rev tasks), finished = [] \<rparr>"
  using assms
proof (induction k)
  case 0
  then show ?case by simp
next
  case (Suc k)
  let ?n = "length tasks"
  let ?q = "map Pending (take k (rev tasks)) @ replicate (L - min k ?n) Free"
  have kl: "k < L" using Suc.prems by simp
  have lq: "length (map Pending (take k (rev tasks))) = min k ?n" by simp
  have qk: "?q ! k = Free \<or> (k < ?n \<and> ?q ! k = Free)" 
  proof (cases "k < ?n")
    case True
    then have "min k ?n = k" by simp
    then have "?q ! k = replicate (L - k) Free ! 0"
      using lq by (simp add: nth_append)
    then show ?thesis using kl by simp
  next
    case False
    then have m: "min k ?n = ?n" by simp
    then have "?q ! k = replicate (L - ?n) Free ! (k - ?n)"
      using False lq by (simp add: nth_append)
    then show ?thesis using kl False by simp
  qed
  then have qf: "?q ! k = Free" by blast
  show ?case
  proof (cases "k < ?n")
    case False
    then have "take (?n - k) tasks = []" by simp
    moreover have "take (Suc k) (rev tasks) = take k (rev tasks)" using False by simp
    moreover have "min (Suc k) ?n = min k ?n" using False by simp
    moreover have "?n - Suc k = ?n - k" using False by simp
    ultimately show ?thesis
      using Suc.IH kl False by (simp add: fillSlot_def truthy_def)
  next
    case True
    then have ne: "take (?n - k) tasks \<noteq> []" by auto
    have mk: "min k ?n = k" "min (Suc k) ?n = Suc k" using True by simp_all
    have la: "last (take (?n - k) tasks) = rev tasks ! k"
    proof -
      have "last (take (?n - k) tasks) = take (?n - k) tasks ! (?n - k - 1)"
        using ne by (simp add: last_conv_nth)
      also have "\<dots> = tasks ! (?n - Suc k)" using True by simp
      also have "\<dots> = rev tasks ! k" using True by (simp add: rev_nth)
      finally show ?thesis .
    qed
    have bl: "butlast (take (?n - k) tasks) = take (?n - Suc k) tasks"
      by (simp add: butlast_take)
    have tk: "take (Suc k) (rev tasks) = take k (rev tasks) @ [rev tasks ! k]"
      using True by (simp add: take_Suc_conv_app_nth)
    have qu: "?q[k := Pending (rev tasks ! k)] =
              map Pending (take (Suc k) (rev tasks)) @ replicate (L - Suc k) Free"
    proof -
      have "L - k = Suc (L - Suc k)" using kl by simp
      then have "replicate (L - k) Free = (Free :: 'a slot) # replicate (L - Suc k) Free"
        by simp
      then show ?thesis
        using mk lq tk by (simp add: list_update_append)
    qed
    show ?thesis
      using Suc.IH kl ne qf la bl tk qu mk
      by (simp add: fillSlot_def truthy_def)
  qed
qed

lemma concurrentDo_first_fill:
  assumes "tasks \<noteq> []"
  shows "concurrentDo tasks L I T =
     \<lparr> taskToBeExcuted = take (length tasks - L) tasks,
       queue = map Pending (take L (rev tasks)) @ replicate (L - min L (length tasks)) Free,
       pLimit = L, timer = Active,
       timeoutTimer = (case T of None \<Rightarrow> Unset | Some t \<Rightarrow> if t = 0 then Unset else Active),
       outcome = Unsettled, started = take L (rev tasks), finished = [] \<rparr>"
  using assms first_fill[of L L tasks] by (simp add: concurrentDo_def fillQueue_def)

lemma only_tick_starts:
  "step ev s = Some s' \<Longrightarrow> ev \<noteq> Tick \<Longrightarrow> started s' = started s"
  by (cases ev)
     (auto simp: resolve_def reject_def cleanup_def Let_def split: if_splits slot.splits)

lemma exec_prefix:
  assumes "exec evs (concurrentDo tasks L I T) = Some s"
  shows "prefix (started s) (rev tasks)"
proof (cases "tasks = []")
  case True
  then show ?thesis using assms exec_empty[of evs L I T s] by (simp add: concurrentDo_empty)
next
  case False
  then have "sched_inv tasks L s"
    using assms concurrentDo_inv exec_inv by blast
  then have "started s @ rev (taskToBeExcuted s) = rev tasks" by (simp add: sched_inv_def)
  then show ?thesis by (metis prefixI)
qed

text \<open>Without a timeout the timeout timer is never created and never fires.\<close>

lemma fold_fillSlot_timeoutTimer:
  "timeoutTimer (fold fillSlot is s) = timeoutTimer s"
  by (induction "is" arbitrary: s) (simp_all add: fillSlot_def)

lemma step_no_timeout:
  assumes "timeoutTimer s = Unset" and "step ev s = Some s'"
  shows "ev \<noteq> TimeoutFired \<and> timeoutTimer s' = Unset"
proof (cases ev)
  case Tick
  then show ?thesis
    using assms by (auto simp: fillQueue_def fold_fillSlot_timeoutTimer split: if_splits)
next
  case (TaskResolved i)
  then show ?thesis
    using assms
    by (auto simp: Let_def resolve_def cleanup_def split: if_splits slot.splits)
next
  case (TaskRejected i e)
  then show ?thesis
    using assms by (auto simp: reject_def cleanup_def split: if_splits slot.splits)
next
  case TimeoutFired
  then show ?thesis using assms by simp
qed

lemma exec_no_timeout:
  "timeoutTimer s = Unset \<Longrightarrow> exec evs s = Some s' \<Longrightarrow> TimeoutFired \<notin> set evs"
proof (induction evs arbitrary: s)
  case Nil
  then show ?case by simp
next
  case (Cons ev evs)
  then obtain s1 where s1: "step ev s = Some s1" and r: "exec evs s1 = Some s'"
    by (auto split: option.splits)
  have "ev \<noteq> TimeoutFired" and "timeoutTimer s1 = Unset"
    using step_no_timeout[OF Cons.prems(1) s1] by simp_all
  then show ?case using Cons.IH[of s1] r by simp
qed

lemma concurrentDo_no_timeout:
  assumes "T = None \<or> T = Some 0"
  shows "timeoutTimer (concurrentDo tasks L I T) = Unset"
  using assms by (auto simp: concurrentDo_def)

text \<open>
  Claim C1 as stated: a batch of succeeding tasks resolves. A batch with a timeout is
  rejected when the timeout expires before the last task has finished, although every task
  succeeds: with the single task 1, limit 1 and a timeout, the timeout fires, the batch is
  rejected with the \<open>BotError\<close> of the timeout, and the task completes afterwards.
\<close>

theorem timeout_rejects_succeeding_batch_counterexample:
  "list_all succeeds [TimeoutFired, TaskResolved 0] \<and>
   map_option (\<lambda>s. (outcome s, started s, finished s))
     (exec [TimeoutFired, TaskResolved 0] (concurrentDo [1::nat] 1 0 (Some 10)))
   = Some (Rejected (BotError OperationTimedOut), [1], [1])"
  by code_simp

text \<open>
  Claim C1, amended. Let every task succeed (no \<open>TaskRejected\<close> event) and \<open>L \<ge> 1\<close>. In
  every state \<open>s\<close> a batch reaches, at most \<open>L\<close> tasks are outstanding, and the tasks
  invoked so far followed by the tasks still waiting are the input list reversed: no task is
  invoked twice. Provided the timeout has not expired, the batch is never rejected; it is
  resolved exactly when all \<open>N\<close> tasks have finished, and then every task has been
  invoked exactly once; and from \<open>s\<close> the batch can still resolve by ticks and task
  completions alone (an unsettled batch always has a tick or a completion that makes
  progress, lemma \<open>progress\<close>). A call without a timeout has no timeout to expire. For
  \<open>N = 0\<close> the call returns resolved, with no task started and neither timer created.
\<close>

theorem concurrentDo_all_succeeding:
  assumes "1 \<le> L"
    and "exec evs (concurrentDo tasks L I T) = Some s"
    and "list_all succeeds evs"
  shows "outstanding s \<le> L \<and>
         started s @ rev (taskToBeExcuted s) = rev tasks \<and>
         (TimeoutFired \<notin> set evs \<longrightarrow>
            (outcome s = Resolved \<or> outcome s = Unsettled) \<and>
            (outcome s = Resolved) = (length (finished s) = length tasks) \<and>
            (outcome s = Resolved \<longrightarrow> started s = rev tasks \<and> mset (finished s) = mset tasks) \<and>
            (\<exists>evs' s'. list_all quiet evs' \<and> exec evs' s = Some s' \<and> outcome s' = Resolved)) \<and>
         (T = None \<or> T = Some 0 \<longrightarrow> TimeoutFired \<notin> set evs) \<and>
         outcome (concurrentDo [] L I T) = Resolved \<and>
         started (concurrentDo [] L I T) = [] \<and>
         timer (concurrentDo [] L I T) = Unset \<and>
         timeoutTimer (concurrentDo [] L I T) = Unset"
proof (cases "tasks = []")
  case True
  then have e: "evs = []" and s: "s = concurrentDo [] L I T"
    using assms(2) exec_empty[of evs L I T s] by simp_all
  have "exec [] s = Some s \<and> list_all quiet [] \<and> outcome s = Resolved"
    using s by (simp add: concurrentDo_empty)
  then have "\<exists>evs' s'. list_all quiet evs' \<and> exec evs' s = Some s' \<and> outcome s' = Resolved"
    by blast
  then show ?thesis
    using True s e by (simp add: concurrentDo_empty outstanding_def)
next
  case False
  have i0: "sched_inv tasks L (concurrentDo tasks L I T)"
    using False by (rule concurrentDo_inv)
  have inv: "sched_inv tasks L s" using i0 assms(2) by (rule exec_inv)
  have a: "outstanding s \<le> L" using inv by (rule sched_inv_outstanding(2))
  have b: "started s @ rev (taskToBeExcuted s) = rev tasks"
    using inv by (simp add: sched_inv_def)
  have c: "(outcome s = Resolved \<or> outcome s = Unsettled) \<and>
           (outcome s = Resolved) = (length (finished s) = length tasks) \<and>
           (outcome s = Resolved \<longrightarrow> started s = rev tasks \<and> mset (finished s) = mset tasks) \<and>
           (\<exists>evs' s'. list_all quiet evs' \<and> exec evs' s = Some s' \<and> outcome s' = Resolved)"
    if nt: "TimeoutFired \<notin> set evs"
  proof -
    have q: "list_all quiet evs"
      using assms(3) nt by (auto simp: list_all_iff quiet_iff)
    have g0: "good_inv (concurrentDo tasks L I T)"
      using False assms(1) by (rule concurrentDo_good)
    have g: "good_inv s" using i0 g0 q assms(2) by (rule exec_good)
    have "outcome s = Resolved \<or> outcome s = Unsettled"
      using g by (auto simp: good_inv_def)
    moreover have "(outcome s = Resolved) = (length (finished s) = length tasks)"
      using inv g by (rule resolved_iff_all_finished)
    moreover have "outcome s = Resolved \<longrightarrow> started s = rev tasks \<and> mset (finished s) = mset tasks"
      using inv g resolved_all_once by blast
    moreover have "\<exists>evs' s'. list_all quiet evs' \<and> exec evs' s = Some s' \<and> outcome s' = Resolved"
      using assms(1) inv g by (rule can_resolve)
    ultimately show ?thesis by blast
  qed
  have e: "outcome (concurrentDo [] L I T) = Resolved \<and>
           started (concurrentDo [] L I T) = [] \<and>
           timer (concurrentDo [] L I T) = Unset \<and>
           timeoutTimer (concurrentDo [] L I T) = Unset"
    by (simp add: concurrentDo_empty)
  have d: "TimeoutFired \<notin> set evs" if "T = None \<or> T = Some 0"
    using concurrentDo_no_timeout[OF that] assms(2) exec_no_timeout by blast
  show ?thesis using a b c d e by blast
qed

lemma run3:
  "exec [TaskResolved 0, Tick, TaskResolved 1, TaskResolved 0] (concurrentDo [1::nat, 2, 3] 2 0 None)
   = Some \<lparr> taskToBeExcuted = [], queue = [Free, Free], pLimit = 2, timer = Cleared,
            timeoutTimer = Unset, outcome = Resolved, started = [3, 2, 1],
            finished = [3, 2, 1] \<rparr>"
  by code_simp

theorem concurrentDo_all_succeeding_witness:
  "(1::nat) \<le> 2 \<and>
   exec [TaskResolved 0, Tick, TaskResolved 1, TaskResolved 0] (concurrentDo [1::nat, 2, 3] 2 0 None)
     = Some \<lparr> taskToBeExcuted = [], queue = [Free, Free], pLimit = 2, timer = Cleared,
              timeoutTimer = Unset, outcome = Resolved, started = [3, 2, 1],
              finished = [3, 2, 1] \<rparr> \<and>
   list_all succeeds [TaskResolved 0, Tick, TaskResolved 1, TaskResolved 0] \<and>
   TimeoutFired \<notin> set [TaskResolved 0, Tick, TaskResolved 1, TaskResolved 0] \<and>
   outstanding \<lparr> taskToBeExcuted = [], queue = [Free, Free], pLimit = 2, timer = Cleared,
              timeoutTimer = Unset, outcome = Resolved, started = [3, 2, 1],
              finished = [3::nat, 2, 1] \<rparr> \<le> 2 \<and>
   length (finished \<lparr> taskToBeExcuted = [], queue = [Free, Free], pLimit = 2, timer = Cleared,
              timeoutTimer = Unset, outcome = Resolved, started = [3, 2, 1],
              finished = [3::nat, 2, 1] \<rparr>) = length [1::nat, 2, 3]"
proof -
  let ?evs = "[TaskResolved 0, Tick, TaskResolved 1, TaskResolved 0]"
  let ?s = "\<lparr> taskToBeExcuted = [], queue = [Free, Free], pLimit = 2, timer = Cleared,
              timeoutTimer = Unset, outcome = Resolved, started = [3, 2, 1],
              finished = [3::nat, 2, 1] \<rparr>"
  have h1: "(1::nat) \<le> 2" by simp
  have h3: "list_all succeeds ?evs" by simp
  have h4: "TimeoutFired \<notin> set ?evs" by simp
  have r: "outcome ?s = Resolved" by simp
  note t = concurrentDo_all_succeeding[OF h1 run3 h3]
  have c1: "outstanding ?s \<le> 2" using t by (rule conjunct1)
  have c2: "length (finished ?s) = length [1::nat, 2, 3]" using t h4 r by blast
  show ?thesis by (intro conjI h1 run3 h3 h4 c1 c2)
qed

text \<open>
  Claim C3 fails on the timeout path. The callback of the timeout timer clears the timeout
  timer only; \<open>cleanup\<close>, which the two other exit paths call, is not called. With tasks
  \<open>[1, 2]\<close>, limit 1 and a timeout: after the timeout has fired the batch is rejected and
  the interval timer is still active; when the running task then completes, the next tick
  starts task 1, after the batch has been rejected.
\<close>

theorem timeout_leaves_interval_timer:
  "map_option (\<lambda>s. (outcome s, timer s, started s))
     (exec [TimeoutFired] (concurrentDo [1::nat, 2] 1 0 (Some 10)))
   = Some (Rejected (BotError OperationTimedOut), Active, [2]) \<and>
   map_option (\<lambda>s. (outcome s, timer s, started s))
     (exec [TimeoutFired, TaskResolved 0, Tick] (concurrentDo [1::nat, 2] 1 0 (Some 10)))
   = Some (Rejected (BotError OperationTimedOut), Active, [2, 1])"
  by code_simp

text \<open>
  Claim C10 as stated: the tasks started during the call are the first \<open>min N L\<close> of the
  list. With tasks \<open>[1, 2, 3]\<close> and limit 2 the call starts 3 and 2; the first two of the
  list are 1 and 2.
\<close>

theorem first_tasks_started_counterexample:
  "started (concurrentDo [1::nat, 2, 3] 2 0 None) = [3, 2] \<and>
   take (min (length [1::nat, 2, 3]) 2) [1::nat, 2, 3] = [1, 2]"
  by code_simp

text \<open>
  Claim C10, amended. For a non-empty list the call itself starts \<open>min N L\<close> tasks, namely
  the last \<open>min N L\<close> tasks of the list, the last one first; they are outstanding and the
  others wait when the call returns, with the interval timer running. Afterwards only a tick
  of the interval timer starts a task: no other callback changes the tasks started.
\<close>

theorem concurrentDo_starts_synchronously:
  assumes "tasks \<noteq> []"
  shows "started (concurrentDo tasks L I T) = take (min (length tasks) L) (rev tasks) \<and>
         taskToBeExcuted (concurrentDo tasks L I T) = take (length tasks - min (length tasks) L) tasks \<and>
         outstanding (concurrentDo tasks L I T) = min (length tasks) L \<and>
         timer (concurrentDo tasks L I T) = Active \<and>
         (\<forall>ev s s'. step ev s = Some s' \<and> ev \<noteq> Tick \<longrightarrow> started s' = started (s :: 'a batch))"
proof -
  have t: "take (min (length tasks) L) (rev tasks) = take L (rev tasks)"
    by (simp add: min_def)
  have d: "length tasks - min (length tasks) L = length tasks - L" by (simp add: min_def)
  have "\<forall>ev s s'. step ev s = Some s' \<and> ev \<noteq> Tick \<longrightarrow> started s' = started (s :: 'a batch)"
    using only_tick_starts by blast
  then show ?thesis
    using concurrentDo_first_fill[OF assms, of L I T] t d
    by (simp add: outstanding_def min.commute)
qed

theorem concurrentDo_starts_synchronously_witness:
  "[1::nat, 2, 3] \<noteq> [] \<and> started (concurrentDo [1::nat, 2, 3] 2 0 None) = [3, 2] \<and>
   taskToBeExcuted (concurrentDo [1::nat, 2, 3] 2 0 None) = [1] \<and>
   timer (concurrentDo [1::nat, 2, 3] 2 0 None) = Active"
proof -
  have h: "[1::nat, 2, 3] \<noteq> []" by simp
  have e1: "take (min (length [1::nat, 2, 3]) 2) (rev [1::nat, 2, 3]) = [3, 2]" by code_simp
  have e2: "take (length [1::nat, 2, 3] - min (length [1::nat, 2, 3]) 2) [1::nat, 2, 3] = [1]"
    by code_simp
  note t = concurrentDo_starts_synchronously[OF h, of 2 0 None]
  have "started (concurrentDo [1::nat, 2, 3] 2 0 None) = take (min (length [1::nat, 2, 3]) 2) (rev [1::nat, 2, 3])"
    and "taskToBeExcuted (concurrentDo [1::nat, 2, 3] 2 0 None) =
         take (length [1::nat, 2, 3] - min (length [1::nat, 2, 3]) 2) [1::nat, 2, 3]"
    and "timer (concurrentDo [1::nat, 2, 3] 2 0 None) = Active"
    using t by blast+
  then show ?thesis unfolding e1 e2 using h by blast
qed

declare retryLoop.simps [simp del]

section \<open>Proofs: the retrying operations\<close>

lemma failedAttempts_step:
  "i < j \<Longrightarrow> failedAttempts pause i j = Attempt i # pauseEffects pause @ failedAttempts pause (Suc i) j"
  by (simp add: failedAttempts_def upt_rec)

lemma failedAttempts_nil: "failedAttempts pause i i = []"
  by (simp add: failedAttempts_def)

lemma attempts_failedAttempts: "attempts (failedAttempts pause i j) = j - i"
proof (induction "j - i" arbitrary: i)
  case 0
  then show ?case by (simp add: failedAttempts_def attempts_def)
next
  case (Suc n)
  then have "i < j" and "n = j - Suc i" by simp_all
  then show ?case
    using Suc.hyps(1)[of "Suc i"]
    by (cases pause) (simp_all add: failedAttempts_step attempts_def pauseEffects_def)
qed

lemma attempts_append: "attempts (a @ b) = attempts a + attempts b"
  by (simp add: attempts_def)

lemma retryLoop_done:
  "\<not> ntimes < budget \<Longrightarrow> retryLoop budget pause remote ntimes err tr = (None, err, tr)"
  by (subst retryLoop.simps) simp

lemma retryLoop_succeeded:
  "ntimes < budget \<Longrightarrow> remote ntimes = Inr v \<Longrightarrow>
   retryLoop budget pause remote ntimes err tr = (Some v, err, tr @ [Attempt ntimes])"
  by (subst retryLoop.simps) simp

lemma retryLoop_failed:
  "ntimes < budget \<Longrightarrow> remote ntimes = Inl e \<Longrightarrow>
   retryLoop budget pause remote ntimes err tr =
     retryLoop budget pause remote (Suc ntimes) (Some e) (tr @ Attempt ntimes # pauseEffects pause)"
  by (subst retryLoop.simps) (simp add: pauseEffects_def)

lemma retryLoop_all_fail:
  "ntimes \<le> budget \<Longrightarrow> \<forall>k. ntimes \<le> k \<and> k < budget \<longrightarrow> isl (remote k) \<Longrightarrow>
   retryLoop budget pause remote ntimes err tr =
     (None, (if ntimes < budget then Some (projl (remote (budget - 1))) else err),
      tr @ failedAttempts pause ntimes budget)"
proof (induction "budget - ntimes" arbitrary: ntimes err tr)
  case 0
  then have "ntimes = budget" by simp
  then show ?case by (simp add: retryLoop_done failedAttempts_nil)
next
  case (Suc n)
  then have lt: "ntimes < budget" and n: "n = budget - Suc ntimes" by simp_all
  obtain e where e: "remote ntimes = Inl e"
    using Suc.prems(2) lt by (metis isl_def le_refl)
  have ih: "retryLoop budget pause remote (Suc ntimes) (Some e) (tr @ Attempt ntimes # pauseEffects pause) =
            (None, (if Suc ntimes < budget then Some (projl (remote (budget - 1))) else Some e),
             (tr @ Attempt ntimes # pauseEffects pause) @ failedAttempts pause (Suc ntimes) budget)"
    using Suc.hyps(1)[OF n] lt Suc.prems(2) by simp
  have la: "projl (remote (budget - 1)) = e" if "\<not> Suc ntimes < budget"
  proof -
    have "budget - 1 = ntimes" using that lt by simp
    then show ?thesis using e by simp
  qed
  have "(if Suc ntimes < budget then Some (projl (remote (budget - 1))) else Some e) =
        Some (projl (remote (budget - 1)))"
    using la by simp
  then show ?case
    using lt ih by (simp add: retryLoop_failed[where remote=remote and ntimes=ntimes and e=e, OF lt e] failedAttempts_step[OF lt])
qed

lemma retryLoop_success:
  "ntimes \<le> k \<Longrightarrow> k < budget \<Longrightarrow> remote k = Inr v \<Longrightarrow>
   \<forall>j. ntimes \<le> j \<and> j < k \<longrightarrow> isl (remote j) \<Longrightarrow>
   \<exists>err'. retryLoop budget pause remote ntimes err tr =
     (Some v, err', tr @ failedAttempts pause ntimes k @ [Attempt k])"
proof (induction "k - ntimes" arbitrary: ntimes err tr)
  case 0
  then have "ntimes = k" by simp
  then show ?case
    using "0.prems" by (simp add: retryLoop_succeeded failedAttempts_nil)
next
  case (Suc n)
  then have lt: "ntimes < k" and n: "n = k - Suc ntimes" by simp_all
  have tb: "ntimes < budget" using lt Suc.prems(2) by simp
  obtain e where e: "remote ntimes = Inl e"
    using Suc.prems(4) lt by (metis isl_def le_refl)
  obtain err' where
    "retryLoop budget pause remote (Suc ntimes) (Some e) (tr @ Attempt ntimes # pauseEffects pause) =
       (Some v, err',
        (tr @ Attempt ntimes # pauseEffects pause) @ failedAttempts pause (Suc ntimes) k @ [Attempt k])"
    using Suc.hyps(1)[OF n, of "Some e" "tr @ Attempt ntimes # pauseEffects pause"] lt Suc.prems
    by auto
  then have "retryLoop budget pause remote ntimes err tr =
       (Some v, err', tr @ failedAttempts pause ntimes k @ [Attempt k])"
    by (simp add: retryLoop_failed[where remote=remote and ntimes=ntimes and e=e, OF tb e] failedAttempts_step[OF lt])
  then show ?case by blast
qed

lemma failedAttempts_Some:
  "failedAttempts (Some ms) i j = concat (map (\<lambda>k. [Attempt k, Delay ms]) [i..<j])"
  by (simp add: failedAttempts_def pauseEffects_def)

lemma loop_all_fail:
  assumes "\<forall>k<budget. isl (remote k)"
  shows "retryLoop budget pause remote 0 None [] =
           (None, (if 0 < budget then Some (projl (remote (budget - 1))) else None),
            failedAttempts pause 0 budget)"
  using retryLoop_all_fail[of 0 budget remote pause None "[]"] assms by simp

lemma loop_success:
  assumes "k < budget" and "remote k = Inr v" and "\<forall>j<k. isl (remote j)"
  shows "\<exists>err'. retryLoop budget pause remote 0 None [] =
           (Some v, err', failedAttempts pause 0 k @ [Attempt k])"
  using retryLoop_success[of 0 k budget remote v pause None "[]"] assms by simp

lemma attempts_success: "attempts (failedAttempts pause 0 k @ [Attempt k]) = Suc k"
  by (simp add: attempts_append attempts_failedAttempts) (simp add: attempts_def)

lemma attempts_log: "attempts (tr @ logError err) = attempts tr"
  by (cases err) (simp_all add: attempts_append logError_def attempts_def)

lemma attempts_log_url: "attempts (tr @ logError err @ [ConsoleLogFailedUrl]) = attempts tr"
  by (cases err) (simp_all add: attempts_append logError_def attempts_def)

lemma download_all_fail:
  assumes "\<forall>k<3. isl (remote k)"
  shows "downloadSticker remote =
           (Inl (BotError DownloadFailed),
            failedAttempts None 0 3 @ [ConsoleLogError (projl (remote 2)), ConsoleLogFailedUrl])"
  using loop_all_fail[OF assms, of None] by (simp add: downloadSticker_def logError_def)

lemma upload_all_fail:
  assumes "\<forall>k<3. isl (remote k)"
  shows "uploadSticker remote =
           (Inl (BotError UploadFailed),
            failedAttempts (Some 1000) 0 3 @ [ConsoleLogError (projl (remote 2))])"
  using loop_all_fail[OF assms, of "Some 1000"] by (simp add: uploadSticker_def logError_def)

lemma add_all_fail:
  assumes "\<forall>k<5. isl (remote k)"
  shows "addSticker remote =
           (Inl (BotError AddFailed),
            failedAttempts (Some 1000) 0 5 @ [ConsoleLogError (projl (remote 4))])"
  using loop_all_fail[OF assms, of "Some 1000"] by (simp add: addSticker_def logError_def)

lemma download_success:
  assumes "k < 3" and "remote k = Inr v" and "\<forall>j<k. isl (remote j)"
  shows "downloadSticker remote = (Inr v, failedAttempts None 0 k @ [Attempt k])"
  using loop_success[OF assms, of None] by (auto simp: downloadSticker_def)

lemma upload_success:
  assumes "k < 3" and "remote k = Inr v" and "\<forall>j<k. isl (remote j)"
  shows "uploadSticker remote = (Inr v, failedAttempts (Some 1000) 0 k @ [Attempt k])"
  using loop_success[OF assms, of "Some 1000"] by (auto simp: uploadSticker_def)

lemma add_success:
  assumes "k < 5" and "remote k = Inr v" and "\<forall>j<k. isl (remote j)"
  shows "addSticker remote = (Inr v, failedAttempts (Some 1000) 0 k @ [Attempt k])"
  using loop_success[OF assms, of "Some 1000"] by (auto simp: addSticker_def)

text \<open>
  Claim C5. The loop with budget \<open>A\<close> invokes an operation that fails on every attempt
  exactly \<open>A\<close> times and returns no result; \<open>downloadSticker\<close>, \<open>uploadSticker\<close> and
  \<open>addSticker\<close> (budgets 3, 3 and 5) then throw the \<open>BotError\<close> of their purpose, whatever
  the operation threw. If the attempt after \<open>k\<close> failures is the first to succeed, with
  \<open>k\<close> below the budget, its result is returned after exactly \<open>k + 1\<close> invocations.
\<close>

theorem retry_budget_and_domain_error:
  fixes remote :: "nat \<Rightarrow> error + 'a"
  shows
  "((\<forall>k<A. isl (remote k)) \<longrightarrow>
      fst (retryLoop A pause remote 0 None []) = None \<and>
      attempts (snd (snd (retryLoop A pause remote 0 None []))) = A) \<and>
   ((\<forall>k<3. isl (remote k)) \<longrightarrow>
      fst (downloadSticker remote) = Inl (BotError DownloadFailed) \<and>
      attempts (snd (downloadSticker remote)) = 3 \<and>
      fst (uploadSticker remote) = Inl (BotError UploadFailed) \<and>
      attempts (snd (uploadSticker remote)) = 3) \<and>
   ((\<forall>k<5. isl (remote k)) \<longrightarrow>
      fst (addSticker remote) = Inl (BotError AddFailed) \<and>
      attempts (snd (addSticker remote)) = 5) \<and>
   (remote k = Inr v \<and> (\<forall>j<k. isl (remote j)) \<longrightarrow>
      (k < A \<longrightarrow>
         fst (retryLoop A pause remote 0 None []) = Some v \<and>
         attempts (snd (snd (retryLoop A pause remote 0 None []))) = Suc k) \<and>
      (k < 3 \<longrightarrow>
         fst (downloadSticker remote) = Inr v \<and> attempts (snd (downloadSticker remote)) = Suc k \<and>
         fst (uploadSticker remote) = Inr v \<and> attempts (snd (uploadSticker remote)) = Suc k) \<and>
      (k < 5 \<longrightarrow>
         fst (addSticker remote) = Inr v \<and> attempts (snd (addSticker remote)) = Suc k))"
proof -
  have a: "fst (retryLoop A pause remote 0 None []) = None \<and>
           attempts (snd (snd (retryLoop A pause remote 0 None []))) = A"
    if "\<forall>k<A. isl (remote k)"
    using loop_all_fail[OF that, of pause] by (simp add: attempts_failedAttempts)
  have b: "fst (downloadSticker remote) = Inl (BotError DownloadFailed) \<and>
           attempts (snd (downloadSticker remote)) = 3 \<and>
           fst (uploadSticker remote) = Inl (BotError UploadFailed) \<and>
           attempts (snd (uploadSticker remote)) = 3"
    if "\<forall>k<3. isl (remote k)"
    using download_all_fail[OF that] upload_all_fail[OF that]
    by (simp add: attempts_append attempts_failedAttempts) (simp add: attempts_def)
  have c: "fst (addSticker remote) = Inl (BotError AddFailed) \<and>
           attempts (snd (addSticker remote)) = 5"
    if "\<forall>k<5. isl (remote k)"
    using add_all_fail[OF that]
    by (simp add: attempts_append attempts_failedAttempts) (simp add: attempts_def)
  have d: "fst (retryLoop A pause remote 0 None []) = Some v \<and>
           attempts (snd (snd (retryLoop A pause remote 0 None []))) = Suc k"
    if "remote k = Inr v" "\<forall>j<k. isl (remote j)" "k < A"
    using loop_success[OF that(3) that(1) that(2), of pause] attempts_success[of pause k]
    by auto
  have e: "fst (downloadSticker remote) = Inr v \<and> attempts (snd (downloadSticker remote)) = Suc k \<and>
           fst (uploadSticker remote) = Inr v \<and> attempts (snd (uploadSticker remote)) = Suc k"
    if "remote k = Inr v" "\<forall>j<k. isl (remote j)" "k < 3"
    using download_success[OF that(3) that(1) that(2)] upload_success[OF that(3) that(1) that(2)]
    by (simp add: attempts_success)
  have f: "fst (addSticker remote) = Inr v \<and> attempts (snd (addSticker remote)) = Suc k"
    if "remote k = Inr v" "\<forall>j<k. isl (remote j)" "k < 5"
    using add_success[OF that(3) that(1) that(2)] by (simp add: attempts_success)
  show ?thesis using a b c d e f by blast
qed

theorem retry_budget_and_domain_error_witness:
  "fst (downloadSticker (\<lambda>k. Inl (Fault ''reset'') :: error + string)) = Inl (BotError DownloadFailed) \<and>
   attempts (snd (downloadSticker (\<lambda>k. Inl (Fault ''reset'') :: error + string))) = 3 \<and>
   fst (addSticker (\<lambda>k. Inl (Fault ''reset'') :: error + string)) = Inl (BotError AddFailed) \<and>
   attempts (snd (addSticker (\<lambda>k. Inl (Fault ''reset'') :: error + string))) = 5"
proof -
  let ?r = "\<lambda>k. Inl (Fault ''reset'') :: error + string"
  note t = retry_budget_and_domain_error[of 3 ?r None 0 "''''"]
  have h3: "\<forall>k<3. isl (?r k)" and h5: "\<forall>k<5. isl (?r k)" by simp_all
  have "fst (downloadSticker ?r) = Inl (BotError DownloadFailed)"
    and "attempts (snd (downloadSticker ?r)) = 3"
    and "fst (addSticker ?r) = Inl (BotError AddFailed)"
    and "attempts (snd (addSticker ?r)) = 5"
    using t h3 h5 by blast+
  then show ?thesis by blast
qed

text \<open>
  Claim C6 as stated: no delay after the final attempt. When all three uploads fail, the
  effects of \<open>uploadSticker\<close> end with the third attempt, a delay of 1000 ms and the log of
  the error: the delay is in the \<open>catch\<close> block, which runs after every failed attempt.
\<close>

theorem delay_after_last_attempt_counterexample:
  "snd (uploadSticker (\<lambda>k. Inl (Fault ''reset'') :: error + string)) =
     [Attempt 0, Delay 1000, Attempt 1, Delay 1000, Attempt 2, Delay 1000,
      ConsoleLogError (Fault ''reset'')]"
  by code_simp

text \<open>
  Claim C6, amended. In the loop with a delay \<open>D\<close>, and so in \<open>uploadSticker\<close> and
  \<open>addSticker\<close>, every failed attempt is followed by one delay, the last failed attempt
  included; no delay precedes the first attempt and none follows a successful attempt. When
  every attempt fails the effects are attempt, delay, ..., attempt, delay (and then the log of
  the last error); when the attempt after \<open>k\<close> failures succeeds they are \<open>k\<close> times
  attempt, delay and then the successful attempt.
\<close>

theorem delay_after_every_failed_attempt:
  fixes remote :: "nat \<Rightarrow> error + 'a"
  shows
  "((\<forall>k<A. isl (remote k)) \<longrightarrow>
      snd (snd (retryLoop A (Some D) remote 0 None [])) =
        concat (map (\<lambda>j. [Attempt j, Delay D]) [0..<A])) \<and>
   ((\<forall>k<3. isl (remote k)) \<longrightarrow>
      snd (uploadSticker remote) =
        concat (map (\<lambda>j. [Attempt j, Delay 1000]) [0..<3]) @ [ConsoleLogError (projl (remote 2))]) \<and>
   ((\<forall>k<5. isl (remote k)) \<longrightarrow>
      snd (addSticker remote) =
        concat (map (\<lambda>j. [Attempt j, Delay 1000]) [0..<5]) @ [ConsoleLogError (projl (remote 4))]) \<and>
   (remote k = Inr v \<and> (\<forall>j<k. isl (remote j)) \<longrightarrow>
      (k < A \<longrightarrow>
         snd (snd (retryLoop A (Some D) remote 0 None [])) =
           concat (map (\<lambda>j. [Attempt j, Delay D]) [0..<k]) @ [Attempt k]) \<and>
      (k < 3 \<longrightarrow>
         snd (uploadSticker remote) =
           concat (map (\<lambda>j. [Attempt j, Delay 1000]) [0..<k]) @ [Attempt k]) \<and>
      (k < 5 \<longrightarrow>
         snd (addSticker remote) =
           concat (map (\<lambda>j. [Attempt j, Delay 1000]) [0..<k]) @ [Attempt k]))"
proof -
  have a: "snd (snd (retryLoop A (Some D) remote 0 None [])) =
             concat (map (\<lambda>j. [Attempt j, Delay D]) [0..<A])"
    if "\<forall>k<A. isl (remote k)"
    using loop_all_fail[OF that, of "Some D"] by (simp add: failedAttempts_Some)
  have b: "snd (uploadSticker remote) =
        concat (map (\<lambda>j. [Attempt j, Delay 1000]) [0..<3]) @ [ConsoleLogError (projl (remote 2))]"
    if "\<forall>k<3. isl (remote k)"
    using upload_all_fail[OF that] by (simp add: failedAttempts_Some)
  have c: "snd (addSticker remote) =
        concat (map (\<lambda>j. [Attempt j, Delay 1000]) [0..<5]) @ [ConsoleLogError (projl (remote 4))]"
    if "\<forall>k<5. isl (remote k)"
    using add_all_fail[OF that] by (simp add: failedAttempts_Some)
  have d: "snd (snd (retryLoop A (Some D) remote 0 None [])) =
           concat (map (\<lambda>j. [Attempt j, Delay D]) [0..<k]) @ [Attempt k]"
    if "remote k = Inr v" "\<forall>j<k. isl (remote j)" "k < A"
    using loop_success[OF that(3) that(1) that(2), of "Some D"]
    by (auto simp: failedAttempts_Some)
  have e: "snd (uploadSticker remote) =
           concat (map (\<lambda>j. [Attempt j, Delay 1000]) [0..<k]) @ [Attempt k]"
    if "remote k = Inr v" "\<forall>j<k. isl (remote j)" "k < 3"
    using upload_success[OF that(3) that(1) that(2)] by (simp add: failedAttempts_Some)
  have f: "snd (addSticker remote) =
           concat (map (\<lambda>j. [Attempt j, Delay 1000]) [0..<k]) @ [Attempt k]"
    if "remote k = Inr v" "\<forall>j<k. isl (remote j)" "k < 5"
    using add_success[OF that(3) that(1) that(2)] by (simp add: failedAttempts_Some)
  show ?thesis using a b c d e f by blast
qed

lemma second_succeeds:
  "(\<lambda>k. if k < 1 then Inl (Fault ''reset'') else Inr ''file-1'') (1::nat) = (Inr ''file-1'' :: error + string) \<and>
   (\<forall>j<1. isl ((\<lambda>k. if k < 1 then Inl (Fault ''reset'') else Inr ''file-1'' :: error + string) (j::nat)))"
  by simp

theorem delay_after_every_failed_attempt_witness:
  "(\<lambda>k. if k < 1 then Inl (Fault ''reset'') else Inr ''file-1'') (1::nat) = (Inr ''file-1'' :: error + string) \<and>
   (1::nat) < 3 \<and>
   snd (uploadSticker (\<lambda>k. if k < 1 then Inl (Fault ''reset'') else (Inr ''file-1'' :: error + string))) =
     concat (map (\<lambda>j. [Attempt j, Delay 1000]) [0..<1]) @ [Attempt 1]"
proof -
  let ?r = "\<lambda>k::nat. if k < 1 then Inl (Fault ''reset'') else (Inr ''file-1'' :: error + string)"
  note t = delay_after_every_failed_attempt[of 3 ?r 1000 1 "''file-1''"]
  have h: "(1::nat) < 3" by simp
  have "snd (uploadSticker ?r) = concat (map (\<lambda>j. [Attempt j, Delay 1000]) [0..<1]) @ [Attempt 1]"
    using t second_succeeds h by blast
  then show ?thesis using second_succeeds h by blast
qed

section \<open>Proofs: the validator and the partition\<close>

lemma andAlso_True: "(andAlso a b = Inr True) = (a = Inr True \<and> b = Inr True)"
  by (auto simp: andAlso_def split: sum.splits)

lemma hasProperty_True:
  "hasProperty key obj = Inr True \<Longrightarrow> \<exists>kvs. obj = JObject kvs"
  by (cases obj) simp_all

lemma everyLineSticker_True:
  "(everyLineSticker xs = Inr True) = (\<forall>x \<in> set xs. isLineSticker x = Inr True)"
  by (induction xs) (auto simp: andAlso_True)

lemma isArrayOfLineStickers_True:
  "isArrayOfLineStickers v = Inr True \<Longrightarrow>
   \<exists>xs. v = Some (JArray xs) \<and> (\<forall>x \<in> set xs. isLineSticker x = Inr True)"
  by (cases v rule: isArrayOfLineStickers.cases) (simp_all add: everyLineSticker_True)

lemma isLineStickerSet_True:
  assumes "isLineStickerSet obj = Inr True"
  shows "\<exists>kvs xs. obj = JObject kvs \<and> map_of kvs ''stickers'' = Some (JArray xs) \<and>
           (\<forall>x \<in> set xs. isLineSticker x = Inr True)"
proof -
  have h: "hasProperty ''id'' obj = Inr True"
    and a: "isArrayOfLineStickers (getProperty ''stickers'' obj) = Inr True"
    using assms by (simp_all add: isLineStickerSet_def andAlso_True)
  obtain kvs where o: "obj = JObject kvs" using hasProperty_True[OF h] by blast
  obtain xs where "getProperty ''stickers'' obj = Some (JArray xs)"
    and "\<forall>x \<in> set xs. isLineSticker x = Inr True"
    using isArrayOfLineStickers_True[OF a] by blast
  then show ?thesis using o by simp
qed

lemma empty_set_accepted:
  "isLineStickerSet (JObject [(''id'', JNumber n), (''name'', JString a), (''author'', JString b),
     (''authorUrl'', JString c), (''mainImageUrl'', JString d), (''stickers'', JArray [])]) = Inr True"
  by (simp add: isLineStickerSet_def andAlso_def)

lemma fold_partitionSticker:
  "fold (partitionSticker c) xs acc =
     (fst acc @ map (\<lambda>s. s\<lparr> fileId := c (sticker_id s) \<rparr>) (filter (cachedFileId c) xs),
      snd acc @ filter (\<lambda>s. \<not> cachedFileId c s) xs)"
  by (induction xs arbitrary: acc) (simp_all add: partitionSticker_def)

lemma cachedFileId_iff:
  "cachedFileId c s = (\<exists>v. c (sticker_id s) = Some v \<and> v \<noteq> [])"
  by (simp add: cachedFileId_def split: option.splits)

text \<open>
  The cache holds the image ids the program wrote: \<open>addImageIds\<close> stores a \<open>fileId\<close>
  only when it is truthy, so a cache without an empty id stays without one.
\<close>

lemma setImageId_nonempty: "[] \<notin> ran images \<Longrightarrow> [] \<notin> ran (setImageId sticker images)"
  by (auto simp: setImageId_def ran_def split: option.splits if_splits)

lemma imagesAfterCommit_nonempty:
  "[] \<notin> ran images \<Longrightarrow> [] \<notin> ran (imagesAfterCommit images xs)"
  unfolding imagesAfterCommit_def
  by (induction xs arbitrary: images) (simp_all add: setImageId_nonempty)

lemma cachedFileId_dom:
  "[] \<notin> ran c \<Longrightarrow> cachedFileId c s = (sticker_id s \<in> dom c)"
  by (auto simp: cachedFileId_def ran_def dom_def split: option.splits)

lemma partition_by_truthy_ids:
  "partitionStickers c xs =
     (map (\<lambda>s. s\<lparr> fileId := c (sticker_id s) \<rparr>) (filter (cachedFileId c) xs),
      filter (\<lambda>s. \<not> cachedFileId c s) xs)"
  by (simp add: partitionStickers_def fold_partitionSticker)

text \<open>
  Claim C8. Let the cache read at the start of the session hold image ids as the program
  stores them (no entry is the empty string). The first partition is the stickers whose id
  has an entry in the cache, in their original order and with \<open>fileId\<close> set to the cached
  value; the second partition is the stickers whose id has no entry, unchanged and in their
  original order. So every sticker is in exactly one partition: the lengths add up.
\<close>

theorem partition_by_cache_entries:
  assumes "[] \<notin> ran existingImageIds"
  shows
  "partitionStickers existingImageIds xs =
     (map (\<lambda>s. s\<lparr> fileId := existingImageIds (sticker_id s) \<rparr>)
        (filter (\<lambda>s. sticker_id s \<in> dom existingImageIds) xs),
      filter (\<lambda>s. sticker_id s \<notin> dom existingImageIds) xs) \<and>
   length (fst (partitionStickers existingImageIds xs)) +
     length (snd (partitionStickers existingImageIds xs)) = length xs"
proof -
  have e: "cachedFileId existingImageIds = (\<lambda>s. sticker_id s \<in> dom existingImageIds)"
    using cachedFileId_dom[OF assms] by (rule ext)
  have a: "partitionStickers existingImageIds xs =
     (map (\<lambda>s. s\<lparr> fileId := existingImageIds (sticker_id s) \<rparr>)
        (filter (\<lambda>s. sticker_id s \<in> dom existingImageIds) xs),
      filter (\<lambda>s. sticker_id s \<notin> dom existingImageIds) xs)"
    using partition_by_truthy_ids[of existingImageIds xs] unfolding e by simp
  have "length (filter (\<lambda>s. sticker_id s \<in> dom existingImageIds) xs) +
        length (filter (\<lambda>s. \<not> sticker_id s \<in> dom existingImageIds) xs) = length xs"
    by (rule sum_length_filter_compl)
  then show ?thesis using a by simp
qed

lemma one_cached_id: "[] \<notin> ran [(2::int) \<mapsto> ''file-2'']"
  by simp

theorem partition_by_cache_entries_witness:
  "[] \<notin> ran [(2::int) \<mapsto> ''file-2''] \<and>
   partitionStickers [2 \<mapsto> ''file-2'']
     [\<lparr> sticker_id = 1, url = ''u1'', emojis = ''e'', sticker_image = None, fileId = None \<rparr>,
      \<lparr> sticker_id = 2, url = ''u2'', emojis = ''e'', sticker_image = None, fileId = None \<rparr>,
      \<lparr> sticker_id = 3, url = ''u3'', emojis = ''e'', sticker_image = None, fileId = None \<rparr>] =
   ([\<lparr> sticker_id = 2, url = ''u2'', emojis = ''e'', sticker_image = None, fileId = Some ''file-2'' \<rparr>],
    [\<lparr> sticker_id = 1, url = ''u1'', emojis = ''e'', sticker_image = None, fileId = None \<rparr>,
     \<lparr> sticker_id = 3, url = ''u3'', emojis = ''e'', sticker_image = None, fileId = None \<rparr>])"
proof -
  note t = partition_by_cache_entries[OF one_cached_id, of
     "[\<lparr> sticker_id = 1, url = ''u1'', emojis = ''e'', sticker_image = None, fileId = None \<rparr>,
      \<lparr> sticker_id = 2, url = ''u2'', emojis = ''e'', sticker_image = None, fileId = None \<rparr>,
      \<lparr> sticker_id = 3, url = ''u3'', emojis = ''e'', sticker_image = None, fileId = None \<rparr>]"]
  have "partitionStickers [2 \<mapsto> ''file-2'']
     [\<lparr> sticker_id = 1, url = ''u1'', emojis = ''e'', sticker_image = None, fileId = None \<rparr>,
      \<lparr> sticker_id = 2, url = ''u2'', emojis = ''e'', sticker_image = None, fileId = None \<rparr>,
      \<lparr> sticker_id = 3, url = ''u3'', emojis = ''e'', sticker_image = None, fileId = None \<rparr>] =
   ([\<lparr> sticker_id = 2, url = ''u2'', emojis = ''e'', sticker_image = None, fileId = Some ''file-2'' \<rparr>],
    [\<lparr> sticker_id = 1, url = ''u1'', emojis = ''e'', sticker_image = None, fileId = None \<rparr>,
     \<lparr> sticker_id = 3, url = ''u3'', emojis = ''e'', sticker_image = None, fileId = None \<rparr>])"
    using t[THEN conjunct1] by simp
  then show ?thesis using one_cached_id by blast
qed

section \<open>Proofs: the handler of a document\<close>

lemma fatalIn_same: "replies s' = replies s \<Longrightarrow> fatalIn env s r s'"
  by (auto simp: fatalIn_def)

lemma fatalIn_trans:
  "fatalIn env s None s1 \<Longrightarrow> fatalIn env s1 r s2 \<Longrightarrow> fatalIn env s r s2"
  unfolding fatalIn_def by (metis le_trans not_le option.distinct(1))

lemma fatalIn_pre:
  "replies s0 = replies s \<Longrightarrow> fatalIn env s r s' \<Longrightarrow> fatalIn env s0 r s'"
  by (simp add: fatalIn_def)

lemma reply_fatal: "fatalIn env s (fst (reply env txt s)) (snd (reply env txt s))"
  by (auto simp: fatalIn_def reply_def act_def less_Suc_eq_le)

lemma await_fatal: "fatalIn env s (fst (await a res s)) (snd (await a res s))"
  by (simp add: fatalIn_same await_def act_def)

lemma runSteps_fatal:
  "\<forall>f \<in> set fs. \<forall>s. fatalIn env s (fst (f s)) (snd (f s)) \<Longrightarrow>
   fatalIn env s (fst (runSteps fs s)) (snd (runSteps fs s))"
proof (induction fs arbitrary: s)
  case Nil
  then show ?case by (simp add: fatalIn_same)
next
  case (Cons f fs)
  obtain r s1 where f: "f s = (r, s1)" by (cases "f s")
  have a: "fatalIn env s r s1" using Cons.prems f by (metis fst_conv list.set_intros(1) snd_conv)
  show ?case
  proof (cases r)
    case (Some e)
    then show ?thesis using a f by simp
  next
    case None
    have ih: "fatalIn env s1 (fst (runSteps fs s1)) (snd (runSteps fs s1))"
      using Cons.IH Cons.prems by simp
    have a': "fatalIn env s None s1" using a None by simp
    have "runSteps (f # fs) s = runSteps fs s1" using f None by simp
    then show ?thesis using fatalIn_trans[OF a' ih] by simp
  qed
qed

lemma downloadStickers_fatal:
  "fatalIn env s (fst (downloadStickers env xs s)) (snd (downloadStickers env xs s))"
  unfolding downloadStickers_def by (rule runSteps_fatal) (simp add: reply_fatal await_fatal)

lemma processStickers_fatal:
  "fatalIn env s (fst (processStickers env xs s)) (snd (processStickers env xs s))"
  unfolding processStickers_def by (rule runSteps_fatal) (simp add: reply_fatal await_fatal)

lemma uploadStickers_fatal:
  "fatalIn env s (fst (uploadStickers env xs s)) (snd (uploadStickers env xs s))"
  unfolding uploadStickers_def by (rule runSteps_fatal) (simp add: reply_fatal await_fatal)

lemma addImageIds_fatal:
  "fatalIn env s (fst (addImageIds env xs s)) (snd (addImageIds env xs s))"
  by (simp add: addImageIds_def await_fatal)

lemma sleep_fatal: "fatalIn env s (fst (sleep ms s)) (snd (sleep ms s))"
  by (simp add: sleep_def await_fatal)

lemma createStickerSet_fatal:
  "fatalIn env s (fst (createStickerSet env st s)) (snd (createStickerSet env st s))"
proof (cases "firstSticker (stickers st)")
  case (Inl e)
  then show ?thesis by (simp add: createStickerSet_def fatalIn_same)
next
  case (Inr first)
  have "fatalIn env s
     (fst (runSteps [await (CreateNewStickerSet (sticker_id first)) (createNewStickerSet env),
                    reply env StickerSetCreated] s))
     (snd (runSteps [await (CreateNewStickerSet (sticker_id first)) (createNewStickerSet env),
                    reply env StickerSetCreated] s))"
    by (rule runSteps_fatal) (simp add: reply_fatal await_fatal)
  then show ?thesis using Inr by (simp add: createStickerSet_def)
qed

lemma addStickers_fatal:
  "fatalIn env s (fst (addStickers env st s)) (snd (addStickers env st s))"
  unfolding addStickers_def by (rule runSteps_fatal) (simp add: reply_fatal await_fatal)

lemma finish_fatal: "fatalIn env s (fst (finish env u s)) (snd (finish env u s))"
  unfolding finish_def by (rule fatalIn_pre[OF _ reply_fatal]) (simp add: act_def)

lemma acquire_fatal: "fatalIn env s (fst (acquire env u s)) (snd (acquire env u s))"
proof (cases "processingChat s u")
  case True
  then show ?thesis by (simp add: acquire_def fatalIn_same)
next
  case False
  have "fatalIn env s
     (fst (reply env ReceivedFile (act (SetProcessing u True) (s\<lparr> processingChat := (processingChat s)(u := True) \<rparr>))))
     (snd (reply env ReceivedFile (act (SetProcessing u True) (s\<lparr> processingChat := (processingChat s)(u := True) \<rparr>))))"
    by (rule fatalIn_pre[OF _ reply_fatal]) (simp add: act_def)
  then show ?thesis using False by (simp add: acquire_def)
qed

lemma fetch_replies: "replies (snd (fetchStickerSetObject env s)) = replies s"
  by (simp add: fetchStickerSetObject_def act_def split: sum.splits)

lemma retrieve_replies: "replies (snd (retrieveImageIds env s)) = replies s"
  by (simp add: retrieveImageIds_def act_def)

lemma tryBlock_fatal:
  "fatalIn env s (fst (tryBlock env u s)) (snd (tryBlock env u s))"
proof -
  obtain r1 s1 where a: "acquire env u s = (r1, s1)" by (cases "acquire env u s")
  have f1: "fatalIn env s r1 s1" using acquire_fatal[of env s u] a by simp
  show ?thesis
  proof (cases r1)
    case (Some e)
    then show ?thesis using a f1 by (simp add: tryBlock_def)
  next
    case None
    obtain r2 s2 where b: "fetchStickerSetObject env s1 = (r2, s2)"
      by (cases "fetchStickerSetObject env s1")
    have e2: "replies s2 = replies s1" using fetch_replies[of env s1] b by simp
    show ?thesis
    proof (cases r2)
      case (Inl e)
      have "fatalIn env s (Some e) s2"
        using f1 None e2 unfolding fatalIn_def by (metis option.distinct(1))
      then show ?thesis using a b None Inl by (simp add: tryBlock_def)
    next
      case (Inr fetched)
      obtain r3 s3 where c: "retrieveImageIds env s2 = (r3, s3)"
        by (cases "retrieveImageIds env s2")
      have e3: "replies s3 = replies s1" using retrieve_replies[of env s2] c e2 by simp
      show ?thesis
      proof (cases r3)
        case (Inl e)
        have "fatalIn env s (Some e) s3"
          using f1 None e3 unfolding fatalIn_def by (metis option.distinct(1))
        then show ?thesis using a b c None Inr Inl by (simp add: tryBlock_def)
      next
        case (Inr ids)
        let ?tb = "snd (partitionStickers ids (stickers fetched))"
        let ?st = "fetched\<lparr> stickers :=
                           map (\<lambda>sticker. if cachedFileId ids sticker
                                  then sticker\<lparr> fileId := ids (sticker_id sticker) \<rparr>
                                  else sticker) (stickers fetched) \<rparr>"
        let ?fs = "[downloadStickers env ?tb, processStickers env ?tb, uploadStickers env ?tb,
                    addImageIds env ?tb, sleep 1000, createStickerSet env ?st, sleep 8000,
                    addStickers env ?st, finish env u]"
        have "fatalIn env s3 (fst (runSteps ?fs s3)) (snd (runSteps ?fs s3))"
          by (rule runSteps_fatal)
             (simp add: downloadStickers_fatal processStickers_fatal uploadStickers_fatal
                addImageIds_fatal sleep_fatal createStickerSet_fatal addStickers_fatal finish_fatal)
        then have "fatalIn env s1 (fst (runSteps ?fs s3)) (snd (runSteps ?fs s3))"
          using e3 by (simp add: fatalIn_def)
        then have "fatalIn env s (fst (runSteps ?fs s3)) (snd (runSteps ?fs s3))"
          using f1 None fatalIn_trans by blast
        moreover have "tryBlock env u s = runSteps ?fs s3"
          using a b c None \<open>r2 = Inr fetched\<close> Inr by (simp add: tryBlock_def Let_def)
        ultimately show ?thesis by simp
      qed
    qed
  qed
qed

lemma catchBlock_releases: "\<not> processingChat (snd (catchBlock env u err s)) u"
  by (simp add: catchBlock_def reply_def act_def)

lemmas pipeline_defs =
  onDocument_def tryBlock_def acquire_def fetchStickerSetObject_def retrieveImageIds_def
  downloadStickers_def processStickers_def uploadStickers_def addImageIds_def sleep_def
  createStickerSet_def addStickers_def finish_def catchBlock_def reply_def await_def act_def
  firstSticker_def partitionStickers_def partitionSticker_def cachedFileId_def
  toLineStickerSet_def toLineSticker_def numberField_def stringField_def optionalStringField_def
  isLineStickerSet_def isLineSticker_def andAlso_def allSucceed_def idle_def twoStickers_def
  releases_def Let_def

lemma onDocument_caught: "caught (onDocument env u s) = fst (tryBlock env u s)"
  by (cases "tryBlock env u s" rule: prod.exhaust; cases "fst (tryBlock env u s)")
     (auto simp: onDocument_def split: prod.splits)

lemma onDocument_failed_releases:
  "caught (onDocument env u s) = Some e \<Longrightarrow> \<not> processingChat (final (onDocument env u s)) u"
  by (auto simp: onDocument_def catchBlock_def reply_def act_def split: prod.splits option.splits)

text \<open>
  Claim C9 as stated: the outcome does not depend on whether a notification succeeds. In the
  environment where every call succeeds the run completes; when only the second call of
  \<open>ctx.reply\<close> (the notification that the download starts) faults, the \<open>catch\<close> block
  catches that fault, no batch is run, and the run ends with the generic error reply.
\<close>

theorem notify_fault_counterexample:
  "caught (onDocument allSucceed 5 idle) = None \<and>
   caught (onDocument
     (allSucceed\<lparr> reply_result := (\<lambda>k. if k = 1 then Some (Fault ''telegram'') else None) \<rparr>)
     5 idle) = Some (Fault ''telegram'') \<and>
   trace (final (onDocument
     (allSucceed\<lparr> reply_result := (\<lambda>k. if k = 1 then Some (Fault ''telegram'') else None) \<rparr>)
     5 idle)) =
     [SetProcessing 5 True, Reply ReceivedFile, FetchDocument, RetrieveImageIds,
      Reply DownloadingStickers, SetProcessing 5 False, Reply SomethingStrange]"
  by (simp add: pipeline_defs)

text \<open>
  Claim C9, amended. A fault of a notification is fatal to the run. If the \<open>k\<close>-th call of
  \<open>ctx.reply\<close> is made by the \<open>try\<close> block of a run and faults with \<open>e\<close>, then it is the
  last call and the last action of the \<open>try\<close> block (no later stage runs), the \<open>catch\<close>
  block catches \<open>e\<close> (the run fails), and the busy flag of the user is cleared. So a run
  completes only if every notification it sent succeeded.
\<close>

theorem notify_fault_is_fatal:
  "(replies s \<le> k \<and> k < replies (snd (tryBlock env userId s)) \<and> reply_result env k = Some e \<longrightarrow>
      caught (onDocument env userId s) = Some e \<and>
      Suc k = replies (snd (tryBlock env userId s)) \<and>
      (\<exists>txt. last (trace (snd (tryBlock env userId s))) = Reply txt) \<and>
      \<not> processingChat (final (onDocument env userId s)) userId) \<and>
   (caught (onDocument env userId s) = None \<longrightarrow>
      (\<forall>j. replies s \<le> j \<and> j < replies (final (onDocument env userId s)) \<longrightarrow>
           reply_result env j = None))"
proof -
  note f = tryBlock_fatal[of env s userId, unfolded fatalIn_def]
  have a: "caught (onDocument env userId s) = Some e \<and>
      Suc k = replies (snd (tryBlock env userId s)) \<and>
      (\<exists>txt. last (trace (snd (tryBlock env userId s))) = Reply txt) \<and>
      \<not> processingChat (final (onDocument env userId s)) userId"
    if h: "replies s \<le> k" "k < replies (snd (tryBlock env userId s))" "reply_result env k = Some e"
  proof -
    have "Suc k = replies (snd (tryBlock env userId s))"
      and c: "fst (tryBlock env userId s) = Some e"
      and "\<exists>txt. last (trace (snd (tryBlock env userId s))) = Reply txt"
      using f h by auto
    moreover have c': "caught (onDocument env userId s) = Some e"
      using c by (simp add: onDocument_caught)
    moreover have "\<not> processingChat (final (onDocument env userId s)) userId"
      using c' by (rule onDocument_failed_releases)
    ultimately show ?thesis by blast
  qed
  have b: "reply_result env j = None"
    if n: "caught (onDocument env userId s) = None"
      and j: "replies s \<le> j" "j < replies (final (onDocument env userId s))" for j
  proof -
    have t: "fst (tryBlock env userId s) = None" using n by (simp add: onDocument_caught)
    then have "final (onDocument env userId s) = snd (tryBlock env userId s)"
      by (cases "tryBlock env userId s") (simp add: onDocument_def)
    then have "j < replies (snd (tryBlock env userId s))" using j by simp
    then show ?thesis using f j(1) t by (metis option.distinct(1) not_None_eq)
  qed
  show ?thesis using a b by blast
qed

lemma second_reply_faults:
  "replies idle \<le> 1 \<and>
   1 < replies (snd (tryBlock
     (allSucceed\<lparr> reply_result := (\<lambda>k. if k = 1 then Some (Fault ''telegram'') else None) \<rparr>) 5 idle)) \<and>
   reply_result
     (allSucceed\<lparr> reply_result := (\<lambda>k. if k = 1 then Some (Fault ''telegram'') else None) \<rparr>) 1 =
     Some (Fault ''telegram'')"
  by (simp add: pipeline_defs)

theorem notify_fault_is_fatal_witness:
  "replies idle \<le> 1 \<and>
   1 < replies (snd (tryBlock
     (allSucceed\<lparr> reply_result := (\<lambda>k. if k = 1 then Some (Fault ''telegram'') else None) \<rparr>) 5 idle)) \<and>
   reply_result
     (allSucceed\<lparr> reply_result := (\<lambda>k. if k = 1 then Some (Fault ''telegram'') else None) \<rparr>) 1 =
     Some (Fault ''telegram'') \<and>
   caught (onDocument
     (allSucceed\<lparr> reply_result := (\<lambda>k. if k = 1 then Some (Fault ''telegram'') else None) \<rparr>)
     5 idle) = Some (Fault ''telegram'') \<and>
   \<not> processingChat (final (onDocument
     (allSucceed\<lparr> reply_result := (\<lambda>k. if k = 1 then Some (Fault ''telegram'') else None) \<rparr>)
     5 idle)) 5"
  using second_reply_faults
    notify_fault_is_fatal[of idle 1
      "allSucceed\<lparr> reply_result := (\<lambda>k. if k = 1 then Some (Fault ''telegram'') else None) \<rparr>"
      5 "Fault ''telegram''"]
  by blast

text \<open>
  Claim C4 fails on the code. The rejection of a second document is thrown inside the
  \<open>try\<close> block, and the \<open>catch\<close> block clears \<open>processingChat[userId]\<close> for every
  error: a run for a user whose flag is set ends with the flag cleared, although the run
  that set it is still going on, and the next document of that user is admitted. Nor is
  the flag cleared exactly once per run: when only the last notification of a successful
  run faults, the run clears it twice.
\<close>

theorem rejected_attempt_clears_flag:
  "caught (onDocument env userId (s\<lparr> processingChat := (processingChat s)(userId := True) \<rparr>)) =
     Some (BotError AlreadyWorking) \<and>
   processingChat (s\<lparr> processingChat := (processingChat s)(userId := True) \<rparr>) userId = True \<and>
   processingChat
     (final (onDocument env userId (s\<lparr> processingChat := (processingChat s)(userId := True) \<rparr>)))
     userId = False \<and>
   processingChat
     (snd (acquire env'  userId
        (final (onDocument env userId (s\<lparr> processingChat := (processingChat s)(userId := True) \<rparr>)))))
     userId = True \<and>
   releases 5 (final (onDocument
     (allSucceed\<lparr> reply_result := (\<lambda>k. if k = 9 then Some (Fault ''telegram'') else None) \<rparr>)
     5 idle)) = 2"
proof -
  let ?s = "s\<lparr> processingChat := (processingChat s)(userId := True) \<rparr>"
  have t: "tryBlock env userId ?s = (Some (BotError AlreadyWorking), ?s)"
    by (simp add: tryBlock_def acquire_def)
  have a: "caught (onDocument env userId ?s) = Some (BotError AlreadyWorking)"
    using t by (simp add: onDocument_caught)
  have b: "processingChat (final (onDocument env userId ?s)) userId = False"
    using a onDocument_failed_releases by blast
  have c: "processingChat (snd (acquire env' userId (final (onDocument env userId ?s)))) userId = True"
    using b by (simp add: acquire_def reply_def act_def)
  have d: "releases 5 (final (onDocument
     (allSucceed\<lparr> reply_result := (\<lambda>k. if k = 9 then Some (Fault ''telegram'') else None) \<rparr>)
     5 idle)) = 2"
    by (simp add: pipeline_defs)
  show ?thesis using a b c d by simp
qed

text \<open>
  Claim C7 fails on the code. The validator has no test of the length of \<open>stickers\<close>
  (\<open>every\<close> holds of an empty array), so it accepts the document with the fields of a set
  and \<open>stickers: []\<close>. The handler then runs its stages on no sticker and commits, and
  \<open>createStickerSet\<close> reads \<open>stickerSet.stickers[0].fileId\<close> on \<open>undefined\<close>: a
  \<open>TypeError\<close>, which the \<open>catch\<close> block reports as the generic error. A document
  that the validator refuses ends at once with the \<open>BotError\<close> about a wrong file.
\<close>

theorem empty_sticker_set_crashes:
  "isLineStickerSet noStickers = Inr True \<and>
   stickers (toLineStickerSet noStickers) = [] \<and>
   createStickerSet allSucceed (toLineStickerSet noStickers) idle = (Some TypeError, idle) \<and>
   caught (onDocument (allSucceed\<lparr> document := Inr noStickers \<rparr>) 5 idle) = Some TypeError \<and>
   trace (final (onDocument (allSucceed\<lparr> document := Inr noStickers \<rparr>) 5 idle)) =
     [SetProcessing 5 True, Reply ReceivedFile, FetchDocument, RetrieveImageIds,
      Reply DownloadingStickers, DownloadBatch [], Reply StickersDownloaded,
      Reply ScalingImages, NormalizeAll [], Reply ImagesProcessed,
      Reply UploadingStickers, UploadBatch [], Reply StickersUploaded,
      CommitImageIds [], Sleep 1000, SetProcessing 5 False, Reply SomethingStrange] \<and>
   caught (onDocument (allSucceed\<lparr> document := Inr (JObject []) \<rparr>) 5 idle) =
     Some (BotError FileSeemsWrong)"
  by (simp add: pipeline_defs noStickers_def TypeError_def)

section \<open>Proofs: the order of dispatch\<close>

text \<open>
  Claim C2 as stated: tasks are started in the order of the input list. \<open>fillQueue\<close> takes
  the next task with \<open>pop\<close>, from the end of the list: of the tasks \<open>[1, 2]\<close> with limit 1
  the task 2 is started first, and the append stage of a set with the stickers 1, 2, 3
  starts with the stickers 3 and 2.
\<close>

theorem dispatch_order_counterexample:
  "started (concurrentDo [1::nat, 2] 1 0 None) = [2] \<and>
   \<not> prefix [2] [1::nat, 2] \<and>
   map sticker_id (started (addStickersBatch (setOf [1, 2, 3]))) = [3, 2]"
  by (simp add: concurrentDo_def fillQueue_def fillSlot_def truthy_def upt_rec
      addStickersBatch_def setOf_def stickerOf_def numeral_2_eq_2)

text \<open>
  Claim C2, amended. A batch starts its tasks in the reverse of the order of the input list:
  in every state a batch reaches, the tasks started so far, in the order they were started,
  are a prefix of the reversed list. So the download and upload stages start with the last
  sticker of the partition, and the append stage submits the remaining stickers (all but
  the first of the set) last first.
\<close>

theorem dispatch_order_reversed:
  "(exec evs (concurrentDo tasks L I T) = Some s \<longrightarrow> prefix (started s) (rev tasks)) \<and>
   (exec evs (downloadStickersBatch xs) = Some s1 \<longrightarrow> prefix (started s1) (rev xs)) \<and>
   (exec evs (uploadStickersBatch xs) = Some s2 \<longrightarrow> prefix (started s2) (rev xs)) \<and>
   (exec evs (addStickersBatch stickerSet) = Some s3 \<longrightarrow>
      prefix (started s3) (rev (drop 1 (stickers stickerSet))))"
  using exec_prefix[of evs tasks L I T s]
    exec_prefix[of evs xs 5 300 "Some 20000" s1]
    exec_prefix[of evs xs 5 1800 "Some 60000" s2]
    exec_prefix[of evs "drop 1 (stickers stickerSet)" 2 1500 "Some 80000" s3]
  by (simp add: downloadStickersBatch_def uploadStickersBatch_def addStickersBatch_def)

lemma run2:
  "exec [TaskResolved 0, Tick] (concurrentDo [1::nat, 2] 1 0 None) =
     Some \<lparr> taskToBeExcuted = [], queue = [Pending 1], pLimit = 1, timer = Active,
            timeoutTimer = Unset, outcome = Unsettled, started = [2, 1], finished = [2] \<rparr>"
  by code_simp

theorem dispatch_order_reversed_witness:
  "exec [TaskResolved 0, Tick] (concurrentDo [1::nat, 2] 1 0 None) =
     Some \<lparr> taskToBeExcuted = [], queue = [Pending 1], pLimit = 1, timer = Active,
            timeoutTimer = Unset, outcome = Unsettled, started = [2, 1], finished = [2] \<rparr> \<and>
   prefix (started \<lparr> taskToBeExcuted = [], queue = [Pending 1], pLimit = 1, timer = Active,
            timeoutTimer = Unset, outcome = Unsettled, started = [2, 1], finished = [2::nat] \<rparr>)
     (rev [1::nat, 2])"
  using run2
    dispatch_order_reversed[of "[TaskResolved 0, Tick]" "[1::nat, 2]" 1 0 None
      "\<lparr> taskToBeExcuted = [], queue = [Pending 1], pLimit = 1, timer = Active,
         timeoutTimer = Unset, outcome = Unsettled, started = [2, 1], finished = [2] \<rparr>"]
  by blast

end
